theory Spec2Isabelle
  imports Complex_Main "HOL-Library.Sublist"
begin

section \<open>Auto Archiver: a shallow embedding of \<^verbatim>\<open>src/main.ts\<close>\<close>

text \<open>
  The plugin classifies a note as archived or active from its frontmatter and tags and
  moves it between its place in the vault and the mirrored place under an archive root.
  Each method of \<^verbatim>\<open>AutoArchiverPlugin\<close> that the properties below speak about is
  translated here: \<^verbatim>\<open>norm\<close>, \<^verbatim>\<open>isInArchive\<close>, \<^verbatim>\<open>isExcluded\<close>,
  \<^verbatim>\<open>ensureFolderExists\<close>, \<^verbatim>\<open>shouldArchive\<close>, \<^verbatim>\<open>isTruthy\<close>,
  \<^verbatim>\<open>buildArchiveTarget\<close>, \<^verbatim>\<open>buildUnarchiveTarget\<close>, \<^verbatim>\<open>resolveCollision\<close>,
  \<^verbatim>\<open>processFile\<close> and \<^verbatim>\<open>scanAll\<close>.

  A JavaScript string is a \<^typ>\<open>string\<close>; its characters are read as the code points
  U+0000 to U+00FF. Strings with other code points are outside the model.
\<close>

subsection \<open>The string primitives of the host language\<close>

type_synonym Path = string

text \<open>White space as \<^verbatim>\<open>String.prototype.trim\<close> and the regular expression class
  \<^verbatim>\<open>\s\<close> see it: TAB, LF, VT, FF, CR, SPACE and NO-BREAK SPACE.\<close>

definition isSpace :: "char \<Rightarrow> bool" where
  "isSpace c = (c \<in> set [CHR 0x09, CHR 0x0A, CHR 0x0B, CHR 0x0C, CHR 0x0D, CHR '' '', CHR 0xA0])"

text \<open>\<^verbatim>\<open>toLowerCase\<close>: the letters A to Z, and the capital letters of U+00C0 to U+00DE
  (the multiplication sign U+00D7 is not one), move 32 places up.\<close>

definition toLowerChar :: "char \<Rightarrow> char" where
  "toLowerChar c =
     (let n = (of_char c :: nat)
      in if (65 \<le> n \<and> n \<le> 90) \<or> (192 \<le> n \<and> n \<le> 222 \<and> n \<noteq> 215)
         then char_of (n + 32) else c)"

definition toLowerCase :: "string \<Rightarrow> string" where
  "toLowerCase s = map toLowerChar s"

definition trim :: "string \<Rightarrow> string" where
  "trim s = rev (dropWhile isSpace (rev (dropWhile isSpace s)))"

text \<open>\<^verbatim>\<open>s.startsWith(t)\<close> and \<^verbatim>\<open>s.endsWith("/")\<close>.\<close>

definition startsWith :: "string \<Rightarrow> string \<Rightarrow> bool" where
  "startsWith s t = (take (length t) s = t)"

definition endsWithSlash :: "string \<Rightarrow> bool" where
  "endsWithSlash s = (s \<noteq> [] \<and> last s = CHR ''/'')"

text \<open>\<^verbatim>\<open>s.lastIndexOf(c)\<close> for a one-character \<^verbatim>\<open>c\<close>; the result \<^verbatim>\<open>-1\<close> is
  \<^term>\<open>None\<close>.\<close>

fun lastIndexOf :: "string \<Rightarrow> char \<Rightarrow> nat option" where
  "lastIndexOf [] c = None"
| "lastIndexOf (x # xs) c =
     (case lastIndexOf xs c of
        Some i \<Rightarrow> Some (Suc i)
      | None \<Rightarrow> (if x = c then Some 0 else None))"

text \<open>\<^verbatim>\<open>s.replace(/\/+$/, "")\<close> and \<^verbatim>\<open>s.replace(/^#/, "")\<close>.\<close>

definition stripTrailingSlashes :: "string \<Rightarrow> string" where
  "stripTrailingSlashes s = rev (dropWhile (\<lambda>c. c = CHR ''/'') (rev s))"

definition stripHash :: "string \<Rightarrow> string" where
  "stripHash s = (case s of [] \<Rightarrow> [] | c # r \<Rightarrow> (if c = CHR ''#'' then r else s))"

text \<open>\<^verbatim>\<open>s.split(re).filter(Boolean)\<close>: the maximal non-empty runs of characters that
  are not separators. \<^verbatim>\<open>cur\<close> is the run being read.\<close>

fun splitFields :: "(char \<Rightarrow> bool) \<Rightarrow> string \<Rightarrow> string \<Rightarrow> string list" where
  "splitFields sep cur [] = (if cur = [] then [] else [cur])"
| "splitFields sep cur (c # cs) =
     (if sep c then (if cur = [] then splitFields sep [] cs else cur # splitFields sep [] cs)
      else splitFields sep (cur @ [c]) cs)"

text \<open>The decimal numeral that a template literal prints for a counter.\<close>

fun showNat :: "nat \<Rightarrow> string" where
  "showNat n =
     (if n < 10 then [char_of (48 + n)]
      else showNat (n div 10) @ [char_of (48 + n mod 10)])"

declare showNat.simps [simp del]

subsection \<open>The host's path normalisation\<close>

definition isSep :: "char \<Rightarrow> bool" where
  "isSep c = (c = CHR ''/'' \<or> c = CHR 0x5C)"

function collapse :: "string \<Rightarrow> string" where
  "collapse [] = []"
| "collapse (c # cs) =
     (if isSep c then CHR ''/'' # collapse (dropWhile isSep cs)
      else c # collapse cs)"
  by pat_completeness auto
termination
  by (relation "measure length") (auto simp: length_dropWhile_le less_Suc_eq_le)

definition stripSlashes :: "string \<Rightarrow> string" where
  "stripSlashes s = stripTrailingSlashes (dropWhile (\<lambda>c. c = CHR ''/'') s)"

definition nbspToSpace :: "char \<Rightarrow> char" where
  "nbspToSpace c = (if c = CHR 0xA0 then CHR '' '' else c)"

text \<open>
  Modelled from the spec: \<^verbatim>\<open>normalizePath\<close> is imported from the host's API
  (\<^verbatim>\<open>import { normalizePath } from "obsidian"\<close>) and its body is not in the repository.
  The spec (4.1) has it canonicalise separators and drop trailing ones without ever
  failing. The model follows the host's function: every run of slashes and backslashes
  becomes one slash, slashes at both ends are dropped, the empty result is the vault root
  \<^verbatim>\<open>"/"\<close>, and a no-break space becomes a space. (The host also puts the string in
  Unicode normal form C, which changes no string of code points below U+0100.)
\<close>

definition normalizePath :: "string \<Rightarrow> Path" where
  "normalizePath s =
     (let t = stripSlashes (collapse s)
      in map nbspToSpace (if t = [] then ''/'' else t))"

subsection \<open>Settings\<close>

record AutoArchiverSettings =
  propertyNames :: "string list"
  extraTruthyValues :: "string list"
  tags :: "string list"
  archiveRoot :: string
  excludedRoots :: "string list"
  dryRun :: bool
  showNotice :: bool
  unarchiveOnMissingAll :: bool

definition DEFAULT_SETTINGS :: AutoArchiverSettings where
  "DEFAULT_SETTINGS =
     \<lparr> propertyNames = [''Archived''],
       extraTruthyValues = [''yes'', ''y'', ''archived'', ''done''],
       tags = [''archived''],
       archiveRoot = ''Archive'',
       excludedRoots = [],
       dryRun = False,
       showNotice = True,
       unarchiveOnMissingAll = True \<rparr>"

subsection \<open>Path containment\<close>

text \<open>The method \<^verbatim>\<open>norm\<close>.\<close>

definition norm_str :: "string \<Rightarrow> string" where
  "norm_str s = toLowerCase (trim s)"

text \<open>The root both containment tests and both target builders compute:
  \<^verbatim>\<open>normalizePath(r).replace(/\/+$/, "")\<close>.\<close>

definition rootOf :: "string \<Rightarrow> Path" where
  "rootOf r = stripTrailingSlashes (normalizePath r)"

definition isInArchive :: "AutoArchiverSettings \<Rightarrow> Path \<Rightarrow> bool" where
  "isInArchive cfg pth =
     (let p = normalizePath pth;
          root = rootOf (archiveRoot cfg)
      in p = root \<or> startsWith p (root @ ''/''))"

definition isExcluded :: "AutoArchiverSettings \<Rightarrow> Path \<Rightarrow> bool" where
  "isExcluded cfg pth =
     (if excludedRoots cfg = [] then False
      else (let p = normalizePath pth
            in list_ex (\<lambda>prefix. let root = rootOf prefix
                                  in p = root \<or> startsWith p (root @ ''/''))
                       (excludedRoots cfg)))"

subsection \<open>Classification\<close>

text \<open>A frontmatter value is whatever the YAML parser produced. A number is an IEEE
  double: a finite value (a rational here), NaN or an infinity.\<close>

datatype jsnum = Finite rat | NaN | PosInfinity | NegInfinity

datatype jsval =
    JUndefined
  | JNull
  | JBoolean bool
  | JNumber jsnum
  | JString string
  | JArray "jsval list"
  | JObject "(string \<times> jsval) list"

text \<open>The metadata cache entry of a file: the frontmatter object, with its keys in
  order, and the tags found in the note's body.\<close>

record CachedMetadata =
  frontmatter :: "(string \<times> jsval) list option"
  inlineTags :: "string list option"

text \<open>A \<^verbatim>\<open>TFile\<close>. The cache entry that \<^verbatim>\<open>metadataCache.getFileCache(file)\<close> returns
  travels with the file (\<^term>\<open>None\<close> when the host has none).\<close>

record TFile =
  path :: Path
  extension :: string
  cache :: "CachedMetadata option"

fun isTruthy :: "AutoArchiverSettings \<Rightarrow> jsval \<Rightarrow> bool" where
  "isTruthy cfg (JBoolean b) = b"
| "isTruthy cfg (JNumber n) = (n = Finite 1)"
| "isTruthy cfg (JString v) =
     (let s = norm_str v
      in if s = ''true'' \<or> s = ''1'' then True
         else if s \<in> set (map norm_str (extraTruthyValues cfg)) then True
         else False)"
| "isTruthy cfg _ = False"

text \<open>\<^verbatim>\<open>fm[k]\<close>, and \<^verbatim>\<open>fm?.tags\<close>.\<close>

definition getProp :: "(string \<times> jsval) list \<Rightarrow> string \<Rightarrow> jsval" where
  "getProp fm k = (case map_of fm k of Some v \<Rightarrow> v | None \<Rightarrow> JUndefined)"

definition propertyMatch :: "AutoArchiverSettings \<Rightarrow> (string \<times> jsval) list option \<Rightarrow> bool" where
  "propertyMatch cfg fmo =
     (let propNames = map norm_str (propertyNames cfg)
      in case fmo of
           None \<Rightarrow> False
         | Some fm \<Rightarrow>
             propNames \<noteq> [] \<and>
             list_ex (\<lambda>k. norm_str k \<in> set propNames \<and> isTruthy cfg (getProp fm k)) (map fst fm))"

definition normTag :: "string \<Rightarrow> string" where
  "normTag t = norm_str (stripHash t)"

fun stringTags :: "jsval list \<Rightarrow> string list" where
  "stringTags [] = []"
| "stringTags (JString t # vs) = normTag t # stringTags vs"
| "stringTags (_ # vs) = stringTags vs"

definition frontmatterTags :: "(string \<times> jsval) list option \<Rightarrow> string list" where
  "frontmatterTags fmo =
     (case (case fmo of None \<Rightarrow> JUndefined | Some fm \<Rightarrow> getProp fm ''tags'') of
        JString s \<Rightarrow> map normTag (splitFields (\<lambda>c. c = CHR '','' \<or> isSpace c) [] s)
      | JArray vs \<Rightarrow> stringTags vs
      | _ \<Rightarrow> [])"

definition tagSet :: "CachedMetadata option \<Rightarrow> string list" where
  "tagSet co =
     frontmatterTags (case co of None \<Rightarrow> None | Some c \<Rightarrow> frontmatter c) @
     map normTag (case co of None \<Rightarrow> []
                  | Some c \<Rightarrow> (case inlineTags c of None \<Rightarrow> [] | Some ts \<Rightarrow> ts))"

definition shouldArchive :: "AutoArchiverSettings \<Rightarrow> TFile \<Rightarrow> bool" where
  "shouldArchive cfg file =
     (if propertyMatch cfg (case cache file of None \<Rightarrow> None | Some c \<Rightarrow> frontmatter c)
      then True
      else if tags cfg \<noteq> [] then
        (let targets = map normTag (tags cfg)
         in list_ex (\<lambda>tg. tg \<in> set targets) (tagSet (cache file)))
      else False)"

subsection \<open>Target paths\<close>

record Target =
  dir :: Path
  full :: Path

definition buildArchiveTarget :: "AutoArchiverSettings \<Rightarrow> TFile \<Rightarrow> Target" where
  "buildArchiveTarget cfg file =
     (let root = rootOf (archiveRoot cfg);
          currentPath = normalizePath (path file);
          i = lastIndexOf currentPath CHR ''/'';
          curDir = (case i of None \<Rightarrow> [] | Some k \<Rightarrow> take k currentPath);
          fname = (case i of None \<Rightarrow> currentPath | Some k \<Rightarrow> drop (k + 1) currentPath);
          targetDir = (if curDir \<noteq> [] then root @ ''/'' @ curDir else root)
      in \<lparr> dir = normalizePath targetDir,
           full = normalizePath (targetDir @ ''/'' @ fname) \<rparr>)"

definition buildUnarchiveTarget :: "AutoArchiverSettings \<Rightarrow> TFile \<Rightarrow> Target option" where
  "buildUnarchiveTarget cfg file =
     (let root = rootOf (archiveRoot cfg);
          filePath = normalizePath (path file)
      in if \<not> isInArchive cfg filePath then None
         else if filePath = root then None
         else
           (let withoutRoot = drop (length root + 1) filePath;
                i = lastIndexOf withoutRoot CHR ''/'';
                curDir = (case i of None \<Rightarrow> [] | Some k \<Rightarrow> take k withoutRoot);
                fname = (case i of None \<Rightarrow> withoutRoot | Some k \<Rightarrow> drop (k + 1) withoutRoot);
                dirSafe = (if curDir \<noteq> [] then normalizePath curDir else []);
                fullSafe = (if dirSafe \<noteq> [] then normalizePath (dirSafe @ ''/'' @ fname)
                            else normalizePath fname)
            in Some \<lparr> dir = dirSafe, full = fullSafe \<rparr>))"

subsection \<open>The vault\<close>

text \<open>
  The vault is the host's: the plugin asks whether a path exists, creates a folder and
  renames a file, and knows nothing else of it. A vault is therefore any state \<open>'v\<close> with
  these three operations. A rejected promise is \<^term>\<open>Inl\<close> of the rejection's text
  (\<^verbatim>\<open>String(e)\<close>) and leaves the vault as it was.
\<close>

record 'v Host =
  adapter_exists :: "'v \<Rightarrow> Path \<Rightarrow> bool"
  createFolder :: "'v \<Rightarrow> Path \<Rightarrow> string + 'v"
  renameFile :: "'v \<Rightarrow> Path \<Rightarrow> Path \<Rightarrow> string + 'v"

text \<open>The loop of \<^verbatim>\<open>ensureFolderExists\<close> over the parts of the folder path; \<open>acc\<close> is
  the path built so far. A rejection whose text includes \<^verbatim>\<open>Folder already exists\<close> is
  swallowed, any other is thrown on, with the vault as it then is.\<close>

fun ensureParts :: "'v Host \<Rightarrow> 'v \<Rightarrow> string \<Rightarrow> string list \<Rightarrow> (string \<times> 'v) + 'v" where
  "ensureParts H v acc [] = Inr v"
| "ensureParts H v acc (part # parts) =
     (let acc' = (if acc \<noteq> [] then acc @ ''/'' @ part else part);
          accNorm = normalizePath acc'
      in if adapter_exists H v accNorm then ensureParts H v acc' parts
         else (case createFolder H v accNorm of
                 Inr v' \<Rightarrow> ensureParts H v' acc' parts
               | Inl e \<Rightarrow>
                   (if sublist ''Folder already exists'' e then ensureParts H v acc' parts
                    else Inl (e, v))))"

definition ensureFolderExists :: "'v Host \<Rightarrow> 'v \<Rightarrow> Path \<Rightarrow> (string \<times> 'v) + 'v" where
  "ensureFolderExists H v folderPath =
     (let fp = normalizePath folderPath
      in if adapter_exists H v fp then Inr v
         else ensureParts H v [] (splitFields (\<lambda>c. c = CHR ''/'') [] fp))"

subsection \<open>Collisions\<close>

definition candidate :: "string \<Rightarrow> string \<Rightarrow> nat \<Rightarrow> Path" where
  "candidate base ext i = normalizePath (base @ '' ('' @ showNat i @ '')'' @ ext)"

text \<open>The \<^verbatim>\<open>while\<close> loop of \<^verbatim>\<open>resolveCollision\<close>. Nothing bounds the counter, so
  the loop need not end: not returning is \<^term>\<open>None\<close>. The counter is a natural number
  here; the source's double counts exactly as far as \<open>2\<^sup>5\<^sup>3\<close>, beyond any run.\<close>

partial_function (option) probe :: "(Path \<Rightarrow> bool) \<Rightarrow> string \<Rightarrow> string \<Rightarrow> nat \<Rightarrow> Path option" where
  "probe ex base ext i =
     (if ex (candidate base ext i) then probe ex base ext (Suc i)
      else Some (candidate base ext i))"

declare probe.simps [code]

definition resolveCollision :: "(Path \<Rightarrow> bool) \<Rightarrow> Path \<Rightarrow> Path option" where
  "resolveCollision ex targetPath =
     (let tp = normalizePath targetPath
      in if \<not> ex tp then Some tp
         else
           (let dot = lastIndexOf tp CHR ''.'';
                hasExt = (dot \<noteq> None \<and> \<not> endsWithSlash tp);
                base = (case dot of Some d \<Rightarrow> (if hasExt then take d tp else tp) | None \<Rightarrow> tp);
                ext = (case dot of Some d \<Rightarrow> (if hasExt then drop d tp else []) | None \<Rightarrow> [])
            in probe ex base ext 1))"

subsection \<open>Processing one file\<close>

text \<open>What a call of \<^verbatim>\<open>processFile\<close> did: the return it left by, with the path it
  logged or showed. The method itself returns nothing; its notices and log lines are
  not modelled beyond this.\<close>

datatype Outcome =
    NoAction
  | WouldArchive Path
  | WouldUnarchive Path
  | Archived Path
  | Unarchived Path

text \<open>
  The result of a call that touches the vault: \<^term>\<open>None\<close> when it never returns,
  \<^term>\<open>Some (Inl (e, v))\<close> when it throws \<open>e\<close> leaving the vault \<open>v\<close>, and
  \<^term>\<open>Some (Inr r)\<close> when it returns. After a rename the host updates the file's path,
  so the file is returned too.
\<close>

text \<open>The statements that end both branches: resolve the collision, rename, and
  report. \<open>done\<close> is the branch's report.\<close>

definition moveTo ::
  "'v Host \<Rightarrow> 'v \<Rightarrow> TFile \<Rightarrow> Path \<Rightarrow> (Path \<Rightarrow> Outcome) \<Rightarrow>
     ((string \<times> 'v) + (Outcome \<times> 'v \<times> TFile)) option" where
  "moveTo H v file fullPath done =
     (case resolveCollision (adapter_exists H v) fullPath of
        None \<Rightarrow> None
      | Some dest \<Rightarrow>
          (case renameFile H v (path file) dest of
             Inl e \<Rightarrow> Some (Inl (e, v))
           | Inr v' \<Rightarrow> Some (Inr (done dest, v', file\<lparr>path := dest\<rparr>))))"

definition processFile ::
  "'v Host \<Rightarrow> AutoArchiverSettings \<Rightarrow> 'v \<Rightarrow> TFile \<Rightarrow>
     ((string \<times> 'v) + (Outcome \<times> 'v \<times> TFile)) option" where
  "processFile H cfg v file =
     (if extension file \<noteq> ''md'' then Some (Inr (NoAction, v, file))
      else if isExcluded cfg (path file) then Some (Inr (NoAction, v, file))
      else
        (let wantArchive = shouldArchive cfg file;
             inArchive = isInArchive cfg (path file)
         in if wantArchive \<and> \<not> inArchive then
              (let t = buildArchiveTarget cfg file
               in if dryRun cfg then Some (Inr (WouldArchive (full t), v, file))
                  else (case ensureFolderExists H v (dir t) of
                          Inl ev \<Rightarrow> Some (Inl ev)
                        | Inr v1 \<Rightarrow> moveTo H v1 file (full t) Archived))
            else if \<not> wantArchive \<and> inArchive \<and> unarchiveOnMissingAll cfg then
              (case buildUnarchiveTarget cfg file of
                 None \<Rightarrow> Some (Inr (NoAction, v, file))
               | Some t \<Rightarrow>
                   if dryRun cfg then Some (Inr (WouldUnarchive (full t), v, file))
                   else (case (if dir t \<noteq> [] then ensureFolderExists H v (dir t) else Inr v) of
                           Inl ev \<Rightarrow> Some (Inl ev)
                         | Inr v1 \<Rightarrow> moveTo H v1 file (full t) Unarchived))
            else Some (Inr (NoAction, v, file))))"

subsection \<open>Scanning the vault\<close>

record 'v ScanResult =
  vault :: 'v
  files :: "TFile list"
  archived :: nat
  unarchived :: nat

text \<open>The \<^verbatim>\<open>for\<close> loop of \<^verbatim>\<open>scanAll\<close>. No statement of the loop catches: what
  \<^verbatim>\<open>processFile\<close> throws leaves the loop and the method.\<close>

fun scanLoop ::
  "'v Host \<Rightarrow> AutoArchiverSettings \<Rightarrow> 'v ScanResult \<Rightarrow> TFile list \<Rightarrow>
     ((string \<times> 'v) + 'v ScanResult) option" where
  "scanLoop H cfg r [] = Some (Inr r)"
| "scanLoop H cfg r (f # fs) =
     (let wasInArchive = isInArchive cfg (path f)
      in case processFile H cfg (vault r) f of
           None \<Rightarrow> None
         | Some (Inl ev) \<Rightarrow> Some (Inl ev)
         | Some (Inr (out, v', f')) \<Rightarrow>
             (let nowInArchive = isInArchive cfg (path f')
              in scanLoop H cfg
                   \<lparr> vault = v', files = files r @ [f'],
                     archived = (if \<not> wasInArchive \<and> nowInArchive then archived r + 1 else archived r),
                     unarchived = (if wasInArchive \<and> \<not> nowInArchive then unarchived r + 1 else unarchived r) \<rparr>
                   fs))"

definition scanAll ::
  "'v Host \<Rightarrow> AutoArchiverSettings \<Rightarrow> 'v \<Rightarrow> TFile list \<Rightarrow>
     ((string \<times> 'v) + 'v ScanResult) option" where
  "scanAll H cfg v fs = scanLoop H cfg \<lparr> vault = v, files = [], archived = 0, unarchived = 0 \<rparr> fs"

text \<open>The command \<^verbatim>\<open>scan-and-archive\<close>: \<^verbatim>\<open>this.scanAll().catch(this.reportError)\<close>.
  The only handler between a failing file and the user is this one, around the whole
  scan.\<close>

datatype 'v Report = ErrorReported string 'v | Scanned "'v ScanResult"

definition scanCommand ::
  "'v Host \<Rightarrow> AutoArchiverSettings \<Rightarrow> 'v \<Rightarrow> TFile list \<Rightarrow> 'v Report option" where
  "scanCommand H cfg v fs =
     (case scanAll H cfg v fs of
        None \<Rightarrow> None
      | Some (Inl (e, v')) \<Rightarrow> Some (ErrorReported e v')
      | Some (Inr r) \<Rightarrow> Some (Scanned r))"

subsection \<open>A vault to run the plugin on\<close>

text \<open>The paths that exist, files and folders alike. Creating a folder that exists and
  renaming onto a path that exists or from one that does not are rejected.\<close>

definition listVault :: "Path list Host" where
  "listVault =
     \<lparr> adapter_exists = (\<lambda>v p. p \<in> set v),
       createFolder = (\<lambda>v p. if p \<in> set v then Inl ''Folder already exists.'' else Inr (v @ [p])),
       renameFile = (\<lambda>v src dst.
          if dst \<in> set v then Inl ''Destination file already exists!''
          else if src \<notin> set v then Inl ''File not found''
          else Inr (map (\<lambda>p. if p = src then dst else p) v)) \<rparr>"

definition mdNote :: "Path \<Rightarrow> (string \<times> jsval) list \<Rightarrow> TFile" where
  "mdNote p fm = \<lparr> path = p, extension = ''md'',
                 cache = Some \<lparr> frontmatter = Some fm, inlineTags = None \<rparr> \<rparr>"

subsection \<open>Normal forms of paths\<close>

text \<open>A canonical path is what the normalisation returns for anything but the vault root:
  not empty, no slash at either end, no two slashes in a row, no backslash and no
  no-break space.\<close>

fun noDoubleSlash :: "string \<Rightarrow> bool" where
  "noDoubleSlash [] = True"
| "noDoubleSlash (x # xs) = ((x = CHR ''/'' \<longrightarrow> xs = [] \<or> hd xs \<noteq> CHR ''/'') \<and> noDoubleSlash xs)"

definition canonical :: "string \<Rightarrow> bool" where
  "canonical s =
     (s \<noteq> [] \<and> hd s \<noteq> CHR ''/'' \<and> last s \<noteq> CHR ''/'' \<and> noDoubleSlash s \<and>
      (\<forall>c \<in> set s. c \<noteq> CHR 0x5C \<and> c \<noteq> CHR 0xA0))"

subsection \<open>Notions the properties are stated with\<close>

text \<open>\<open>n\<close> is the first counter from 1 on whose candidate path, the base, the counter
  in parentheses after a space, and the extension, does not exist.\<close>

definition firstFree :: "(Path \<Rightarrow> bool) \<Rightarrow> string \<Rightarrow> string \<Rightarrow> nat \<Rightarrow> bool" where
  "firstFree ex base ext n =
     (1 \<le> n \<and> \<not> ex (base @ '' ('' @ showNat n @ '')'' @ ext) \<and>
      (\<forall>k < n. 1 \<le> k \<longrightarrow> ex (base @ '' ('' @ showNat k @ '')'' @ ext)))"

text \<open>A string without a slash, a backslash or a no-break space: the normalisation
  leaves it as it is wherever it stands in a path.\<close>

definition clean :: "string \<Rightarrow> bool" where
  "clean m = (\<forall>c \<in> set m. c \<noteq> CHR ''/'' \<and> c \<noteq> CHR 0x5C \<and> c \<noteq> CHR 0xA0)"

text \<open>A tag, as written, is on a file: among the tags of the note's body, an element of
  the frontmatter's \<^verbatim>\<open>tags\<close> list, or the frontmatter's \<^verbatim>\<open>tags\<close> string itself.\<close>

definition carriesTag :: "TFile \<Rightarrow> string \<Rightarrow> bool" where
  "carriesTag f t =
     (case cache f of
        None \<Rightarrow> False
      | Some c \<Rightarrow>
          (case inlineTags c of None \<Rightarrow> False | Some ts \<Rightarrow> t \<in> set ts) \<or>
          (case frontmatter c of
             None \<Rightarrow> False
           | Some fm \<Rightarrow>
               (case map_of fm ''tags'' of
                  Some (JArray vs) \<Rightarrow> JString t \<in> set vs
                | Some (JString s) \<Rightarrow> s = t
                | _ \<Rightarrow> False)))"

section \<open>Properties\<close>

subsection \<open>Normalisation\<close>

lemma noDoubleSlash_append:
  "noDoubleSlash (a @ b) =
     (noDoubleSlash a \<and> noDoubleSlash b \<and> (a \<noteq> [] \<and> b \<noteq> [] \<longrightarrow> \<not> (last a = CHR ''/'' \<and> hd b = CHR ''/'')))"
  by (induction a) auto

lemma collapse_id:
  "\<forall>c \<in> set s. c \<noteq> CHR 0x5C \<Longrightarrow> noDoubleSlash s \<Longrightarrow> collapse s = s"
proof (induction s)
  case Nil
  then show ?case by simp
next
  case (Cons c cs)
  then have ih: "collapse cs = cs" by simp
  show ?case
  proof (cases "isSep c")
    case True
    with Cons.prems have "cs = [] \<or> \<not> isSep (hd cs)"
      by (cases cs) (auto simp: isSep_def)
    then have "dropWhile isSep cs = cs"
      by (simp add: dropWhile_eq_self_iff)
    with True ih Cons.prems show ?thesis by (auto simp: isSep_def)
  next
    case False
    with ih show ?thesis by simp
  qed
qed

lemma stripTrailingSlashes_id:
  "s = [] \<or> last s \<noteq> CHR ''/'' \<Longrightarrow> stripTrailingSlashes s = s"
  by (cases s rule: rev_cases) (auto simp: stripTrailingSlashes_def)

lemma stripSlashes_id:
  "s \<noteq> [] \<Longrightarrow> hd s \<noteq> CHR ''/'' \<Longrightarrow> last s \<noteq> CHR ''/'' \<Longrightarrow> stripSlashes s = s"
proof -
  assume a: "s \<noteq> []" "hd s \<noteq> CHR ''/''" "last s \<noteq> CHR ''/''"
  have "dropWhile (\<lambda>c. c = CHR ''/'') s = s"
    using a(2) by (subst dropWhile_eq_self_iff) simp
  then show ?thesis using a(3) by (simp add: stripSlashes_def stripTrailingSlashes_id)
qed

lemma map_nbspToSpace_id:
  "\<forall>c \<in> set s. c \<noteq> CHR 0xA0 \<Longrightarrow> map nbspToSpace s = s"
  by (induction s) (auto simp: nbspToSpace_def)

lemma normalizePath_canonical:
  "canonical s \<Longrightarrow> normalizePath s = s"
  by (simp add: canonical_def normalizePath_def collapse_id stripSlashes_id map_nbspToSpace_id)

lemma collapse_no_backslash: "CHR 0x5C \<notin> set (collapse s)"
  by (induction s rule: collapse.induct) (auto simp: isSep_def)

lemma collapse_hd:
  "s \<noteq> [] \<Longrightarrow> \<not> isSep (hd s) \<Longrightarrow> collapse s \<noteq> [] \<and> hd (collapse s) = hd s"
  by (cases s) auto

lemma dropWhile_hd: "dropWhile P s \<noteq> [] \<Longrightarrow> \<not> P (hd (dropWhile P s))"
  by (metis hd_dropWhile)

lemma noDoubleSlash_collapse: "noDoubleSlash (collapse s)"
proof (induction s rule: collapse.induct)
  case 1
  then show ?case by simp
next
  case (2 c cs)
  show ?case
  proof (cases "isSep c")
    case True
    let ?r = "dropWhile isSep cs"
    have "collapse ?r = [] \<or> hd (collapse ?r) \<noteq> CHR ''/''"
    proof (cases "?r = []")
      case True
      then have "collapse ?r = []" by (simp only: collapse.simps)
      then show ?thesis by blast
    next
      case False
      then have "\<not> isSep (hd ?r)" by (rule dropWhile_hd)
      with False have "hd (collapse ?r) = hd ?r" using collapse_hd by blast
      with \<open>\<not> isSep (hd ?r)\<close> show ?thesis by (auto simp: isSep_def)
    qed
    with True 2 show ?thesis by auto
  next
    case False
    with 2 show ?thesis by (auto simp: isSep_def)
  qed
qed

lemma stripSlashes_props:
  assumes "noDoubleSlash s" "CHR 0x5C \<notin> set s" "stripSlashes s \<noteq> []"
  shows "hd (stripSlashes s) \<noteq> CHR ''/''" "last (stripSlashes s) \<noteq> CHR ''/''"
    "noDoubleSlash (stripSlashes s)" "CHR 0x5C \<notin> set (stripSlashes s)"
proof -
  let ?P = "\<lambda>c. c = CHR ''/''"
  let ?d = "dropWhile ?P s"
  have eq: "stripSlashes s = rev (dropWhile ?P (rev ?d))"
    by (simp add: stripSlashes_def stripTrailingSlashes_def)
  obtain pre where pre: "s = pre @ ?d" by (metis takeWhile_dropWhile_id)
  obtain suf where suf: "rev ?d = suf @ dropWhile ?P (rev ?d)" by (metis takeWhile_dropWhile_id)
  then have d: "?d = stripSlashes s @ rev suf" using eq by (metis rev_append rev_rev_ident)
  have ne: "dropWhile ?P (rev ?d) \<noteq> []" using assms(3) eq by simp
  from ne have "\<not> ?P (hd (dropWhile ?P (rev ?d)))" by (rule dropWhile_hd)
  then show "last (stripSlashes s) \<noteq> CHR ''/''" using eq ne by (simp add: last_rev)
  have dne: "?d \<noteq> []" using d assms(3) by auto
  then have "\<not> ?P (hd ?d)" by (rule dropWhile_hd)
  moreover have "hd ?d = hd (stripSlashes s)" using d assms(3) by (metis hd_append2)
  ultimately show "hd (stripSlashes s) \<noteq> CHR ''/''" by simp
  from assms(1) pre have "noDoubleSlash ?d" by (metis noDoubleSlash_append)
  then show "noDoubleSlash (stripSlashes s)" using d by (metis noDoubleSlash_append)
  have "set (stripSlashes s) \<subseteq> set ?d" by (subst d) simp
  moreover have "set ?d \<subseteq> set s" by (auto dest: set_dropWhileD)
  ultimately show "CHR 0x5C \<notin> set (stripSlashes s)" using assms(2) by blast
qed

lemma noDoubleSlash_map:
  assumes "\<And>c. (f c = CHR ''/'') = (c = CHR ''/'')"
  shows "noDoubleSlash (map f s) = noDoubleSlash s"
proof (induction s)
  case Nil
  show ?case by simp
next
  case (Cons x xs)
  show ?case
  proof (cases "xs = []")
    case True
    then show ?thesis by simp
  next
    case False
    then have "hd (map f xs) = f (hd xs)" by (rule hd_map)
    then have "(hd (map f xs) = CHR ''/'') = (hd xs = CHR ''/'')"
      using assms [of "hd xs"] by simp
    moreover have "(f x = CHR ''/'') = (x = CHR ''/'')" by (rule assms)
    ultimately show ?thesis using Cons False by simp
  qed
qed

lemma normalizePath_result: "normalizePath s = ''/'' \<or> canonical (normalizePath s)"
proof (cases "stripSlashes (collapse s) = []")
  case True
  then show ?thesis by (simp add: normalizePath_def nbspToSpace_def)
next
  case False
  let ?t = "stripSlashes (collapse s)"
  have sl: "\<And>c. (nbspToSpace c = CHR ''/'') = (c = CHR ''/'')" by (simp add: nbspToSpace_def)
  note p = stripSlashes_props [OF noDoubleSlash_collapse collapse_no_backslash False]
  have np: "normalizePath s = map nbspToSpace ?t" using False by (simp add: normalizePath_def)
  have "canonical (map nbspToSpace ?t)"
    unfolding canonical_def
  proof (intro conjI ballI)
    show "map nbspToSpace ?t \<noteq> []" using False by simp
    show "hd (map nbspToSpace ?t) \<noteq> CHR ''/''" using False p(1) by (simp add: hd_map sl)
    show "last (map nbspToSpace ?t) \<noteq> CHR ''/''" using False p(2) by (simp add: last_map sl)
    show "noDoubleSlash (map nbspToSpace ?t)" using p(3) by (simp add: noDoubleSlash_map sl)
  next
    fix c assume "c \<in> set (map nbspToSpace ?t)"
    then obtain d where "d \<in> set ?t" "c = nbspToSpace d" by auto
    with p(4) show "c \<noteq> CHR 0x5C" by (auto simp: nbspToSpace_def)
  next
    fix c assume "c \<in> set (map nbspToSpace ?t)"
    then show "c \<noteq> CHR 0xA0" by (auto simp: nbspToSpace_def)
  qed
  with np show ?thesis by simp
qed

lemma normalizePath_slash: "normalizePath ''/'' = ''/''"
  by code_simp

lemma normalizePath_idem: "normalizePath (normalizePath s) = normalizePath s"
  using normalizePath_result [of s] by (auto simp: normalizePath_slash normalizePath_canonical)

lemma canonical_join:
  assumes "canonical a" "canonical b"
  shows "canonical (a @ ''/'' @ b)"
proof -
  from assms have a: "a \<noteq> []" "hd a \<noteq> CHR ''/''" "last a \<noteq> CHR ''/''" "noDoubleSlash a"
    and b: "b \<noteq> []" "hd b \<noteq> CHR ''/''" "last b \<noteq> CHR ''/''" "noDoubleSlash b"
    and c: "\<forall>c \<in> set a \<union> set b. c \<noteq> CHR 0x5C \<and> c \<noteq> CHR 0xA0"
    by (auto simp: canonical_def)
  have "noDoubleSlash (CHR ''/'' # b)" using b by simp
  then have "noDoubleSlash (a @ CHR ''/'' # b)" using a by (simp add: noDoubleSlash_append)
  moreover have "hd (a @ CHR ''/'' # b) \<noteq> CHR ''/''" using a by simp
  moreover have "last (a @ CHR ''/'' # b) \<noteq> CHR ''/''" using b by simp
  moreover have "\<forall>c \<in> set (a @ CHR ''/'' # b). c \<noteq> CHR 0x5C \<and> c \<noteq> CHR 0xA0" using c by simp
  ultimately show ?thesis by (simp add: canonical_def)
qed

subsection \<open>Splitting a path at its last slash\<close>

lemma lastIndexOf_Some:
  "lastIndexOf s c = Some i \<Longrightarrow> i < length s \<and> s ! i = c \<and> c \<notin> set (drop (Suc i) s)"
proof (induction s arbitrary: i)
  case Nil
  then show ?case by simp
next
  case (Cons x xs)
  show ?case
  proof (cases "lastIndexOf xs c")
    case None
    with Cons.prems have "x = c" "i = 0" by (auto split: if_splits)
    moreover have "c \<notin> set xs" using None
      by (induction xs) (auto split: option.splits if_splits)
    ultimately show ?thesis by simp
  next
    case (Some j)
    with Cons.prems have "i = Suc j" by simp
    with Cons.IH [OF Some] show ?thesis by simp
  qed
qed

lemma lastIndexOf_split:
  assumes "lastIndexOf s c = Some i"
  shows "s = take i s @ c # drop (Suc i) s"
  using lastIndexOf_Some [OF assms] by (metis id_take_nth_drop)

lemma canonical_split:
  assumes "canonical p" "lastIndexOf p CHR ''/'' = Some i"
  shows "take i p \<noteq> []" "canonical (take i p)" "take i p @ ''/'' @ drop (i + 1) p = p"
proof -
  have sp: "p = take i p @ CHR ''/'' # drop (Suc i) p" using assms(2) by (rule lastIndexOf_split)
  from assms(1) have c: "p \<noteq> []" "hd p \<noteq> CHR ''/''" "noDoubleSlash p"
    "\<forall>c \<in> set p. c \<noteq> CHR 0x5C \<and> c \<noteq> CHR 0xA0"
    by (simp_all add: canonical_def)
  show ne: "take i p \<noteq> []"
  proof
    assume "take i p = []"
    with sp have "p = CHR ''/'' # drop (Suc i) p" by simp
    then have "hd p = CHR ''/''" by (metis list.sel(1))
    with c(2) show False by simp
  qed
  from sp show "take i p @ ''/'' @ drop (i + 1) p = p" by simp
  have nd: "noDoubleSlash (take i p @ CHR ''/'' # drop (Suc i) p)" using c(3) sp by simp
  then have "noDoubleSlash (take i p)" and "last (take i p) \<noteq> CHR ''/''"
    using ne by (simp_all add: noDoubleSlash_append)
  moreover have "hd (take i p) = hd p" using ne by (metis hd_append2 sp)
  moreover have "set (take i p) \<subseteq> set p" by (rule set_take_subset)
  ultimately show "canonical (take i p)" using ne c by (auto simp: canonical_def)
qed

subsection \<open>Target paths\<close>

lemma rootOf_canonical:
  assumes "normalizePath r \<noteq> ''/''"
  shows "rootOf r = normalizePath r" "canonical (rootOf r)"
proof -
  from assms have c: "canonical (normalizePath r)" using normalizePath_result [of r] by simp
  then show "rootOf r = normalizePath r"
    by (simp add: rootOf_def canonical_def stripTrailingSlashes_id)
  with c show "canonical (rootOf r)" by simp
qed

lemma startsWith_iff: "startsWith s t \<longleftrightarrow> (\<exists>rest. s = t @ rest)"
  by (metis append_eq_conv_conj startsWith_def)

lemma normalizePath_join:
  assumes "canonical a" "canonical b"
  shows "normalizePath (a @ CHR ''/'' # b) = a @ CHR ''/'' # b"
  using canonical_join [OF assms] by (simp add: normalizePath_canonical)

text \<open>The archive target of a canonical path is the path under the root.\<close>

lemma archive_full_canonical:
  assumes "canonical (path f)" "canonical (rootOf (archiveRoot cfg))"
  shows "full (buildArchiveTarget cfg f) = rootOf (archiveRoot cfg) @ ''/'' @ path f"
proof -
  let ?r = "rootOf (archiveRoot cfg)"
  let ?p = "path f"
  have np: "normalizePath ?p = ?p" using assms(1) by (rule normalizePath_canonical)
  have j: "normalizePath (?r @ CHR ''/'' # ?p) = ?r @ CHR ''/'' # ?p"
    using assms(2,1) by (rule normalizePath_join)
  show ?thesis
  proof (cases "lastIndexOf ?p CHR ''/''")
    case None
    then show ?thesis using j by (simp add: buildArchiveTarget_def np Let_def)
  next
    case (Some i)
    note s = canonical_split [OF assms(1) Some]
    have "take i ?p @ CHR ''/'' # drop (Suc i) ?p = ?p" using s(3) by simp
    then show ?thesis using j s(1) Some by (simp add: buildArchiveTarget_def np Let_def)
  qed
qed

lemma isInArchive_under:
  assumes "canonical (rootOf (archiveRoot cfg))" "canonical p"
  shows "isInArchive cfg (rootOf (archiveRoot cfg) @ ''/'' @ p)"
proof -
  have "normalizePath (rootOf (archiveRoot cfg) @ CHR ''/'' # p) = rootOf (archiveRoot cfg) @ CHR ''/'' # p"
    using assms by (rule normalizePath_join)
  then show ?thesis by (simp add: isInArchive_def startsWith_def Let_def)
qed

lemma unarchive_full_canonical:
  assumes "canonical p" "canonical (rootOf (archiveRoot cfg))"
    and "path f = rootOf (archiveRoot cfg) @ ''/'' @ p"
  shows "\<exists>t. buildUnarchiveTarget cfg f = Some t \<and> full t = p"
proof -
  let ?r = "rootOf (archiveRoot cfg)"
  have j: "normalizePath (path f) = ?r @ CHR ''/'' # p"
    using normalizePath_join [OF assms(2,1)] assms(3) by simp
  have inA: "isInArchive cfg (?r @ CHR ''/'' # p)" using isInArchive_under [OF assms(2,1)] by simp
  have ne: "?r @ CHR ''/'' # p \<noteq> ?r" by simp
  have dr: "drop (Suc (length ?r)) (?r @ CHR ''/'' # p) = p" by simp
  have np: "normalizePath p = p" using assms(1) by (rule normalizePath_canonical)
  show ?thesis
  proof (cases "lastIndexOf p CHR ''/''")
    case None
    then show ?thesis using inA ne np
      by (simp add: buildUnarchiveTarget_def j dr Let_def del: append_eq_append_conv)
  next
    case (Some i)
    note s = canonical_split [OF assms(1) Some]
    have d: "normalizePath (take i p) = take i p" using s(2) by (rule normalizePath_canonical)
    have "normalizePath (take i p @ CHR ''/'' # drop (Suc i) p) = p" using s(3) np by simp
    then show ?thesis using inA ne s(1) Some d
      by (simp add: buildUnarchiveTarget_def j dr Let_def)
  qed
qed

subsection \<open>Containment\<close>

lemma isInArchive_normalizePath: "isInArchive cfg (normalizePath p) = isInArchive cfg p"
  by (simp add: isInArchive_def normalizePath_idem)

lemma startsWith_slash_iff:
  "startsWith s (r @ ''/'') \<longleftrightarrow> (\<exists>rest. s = r @ ''/'' @ rest)"
  using startsWith_iff [of s "r @ ''/''"] by simp

lemma single_slash_prefix:
  assumes "length (filter (\<lambda>c. c = CHR ''/'') s) = 1" and "s = a @ ''/'' @ b"
  shows "a = takeWhile (\<lambda>c. c \<noteq> CHR ''/'') s"
proof -
  from assms have "filter (\<lambda>c. c = CHR ''/'') a = []" by auto
  then have "\<forall>x \<in> set a. x \<noteq> CHR ''/''" by (simp add: filter_empty_conv)
  then show ?thesis by (simp add: assms(2) takeWhile_append2)
qed

lemma under_Templates2:
  "(''Templates2/note.md'' = r \<or> startsWith ''Templates2/note.md'' (r @ ''/'')) \<longleftrightarrow>
   (r = ''Templates2'' \<or> r = ''Templates2/note.md'')"
proof
  assume "''Templates2/note.md'' = r \<or> startsWith ''Templates2/note.md'' (r @ ''/'')"
  then show "r = ''Templates2'' \<or> r = ''Templates2/note.md''"
  proof
    assume "''Templates2/note.md'' = r"
    then show ?thesis by simp
  next
    assume "startsWith ''Templates2/note.md'' (r @ ''/'')"
    then obtain rest where "''Templates2/note.md'' = r @ ''/'' @ rest"
      unfolding startsWith_slash_iff by blast
    moreover have "length (filter (\<lambda>c. c = CHR ''/'') ''Templates2/note.md'') = 1" by simp
    ultimately have "r = takeWhile (\<lambda>c. c \<noteq> CHR ''/'') ''Templates2/note.md''"
      by (rule single_slash_prefix [rotated])
    then show ?thesis by simp
  qed
next
  assume "r = ''Templates2'' \<or> r = ''Templates2/note.md''"
  then show "''Templates2/note.md'' = r \<or> startsWith ''Templates2/note.md'' (r @ ''/'')"
    by (auto simp: startsWith_def)
qed

lemma under_Archives:
  "(''Archives/x.md'' = r \<or> startsWith ''Archives/x.md'' (r @ ''/'')) \<longleftrightarrow>
   (r = ''Archives'' \<or> r = ''Archives/x.md'')"
proof
  assume "''Archives/x.md'' = r \<or> startsWith ''Archives/x.md'' (r @ ''/'')"
  then show "r = ''Archives'' \<or> r = ''Archives/x.md''"
  proof
    assume "''Archives/x.md'' = r"
    then show ?thesis by simp
  next
    assume "startsWith ''Archives/x.md'' (r @ ''/'')"
    then obtain rest where "''Archives/x.md'' = r @ ''/'' @ rest"
      unfolding startsWith_slash_iff by blast
    moreover have "length (filter (\<lambda>c. c = CHR ''/'') ''Archives/x.md'') = 1" by simp
    ultimately have "r = takeWhile (\<lambda>c. c \<noteq> CHR ''/'') ''Archives/x.md''"
      by (rule single_slash_prefix [rotated])
    then show ?thesis by simp
  qed
next
  assume "r = ''Archives'' \<or> r = ''Archives/x.md''"
  then show "''Archives/x.md'' = r \<or> startsWith ''Archives/x.md'' (r @ ''/'')"
    by (auto simp: startsWith_def)
qed

lemma normalizePath_Templates2: "normalizePath ''Templates2/note.md'' = ''Templates2/note.md''"
  by code_simp

lemma normalizePath_Archives: "normalizePath ''Archives/x.md'' = ''Archives/x.md''"
  by code_simp

lemma rootOf_Templates: "rootOf ''Templates'' = ''Templates''"
  by code_simp

lemma rootOf_Archive: "rootOf ''Archive'' = ''Archive''"
  by code_simp

lemma isExcluded_Templates2:
  "isExcluded cfg ''Templates2/note.md'' \<longleftrightarrow>
     (\<exists>r \<in> set (excludedRoots cfg). rootOf r = ''Templates2'' \<or> rootOf r = ''Templates2/note.md'')"
  by (cases "excludedRoots cfg = []")
     (simp_all add: isExcluded_def Let_def list_ex_iff normalizePath_Templates2 under_Templates2)

lemma isInArchive_Archives:
  "isInArchive cfg ''Archives/x.md'' \<longleftrightarrow>
     rootOf (archiveRoot cfg) = ''Archives'' \<or> rootOf (archiveRoot cfg) = ''Archives/x.md''"
  by (simp add: isInArchive_def Let_def normalizePath_Archives under_Archives)

subsection \<open>Files that are left alone\<close>

lemma processFile_skips:
  "extension f \<noteq> ''md'' \<or> isExcluded cfg (path f) \<Longrightarrow>
   processFile H cfg v f = Some (Inr (NoAction, v, f))"
  by (auto simp: processFile_def)

lemma buildUnarchiveTarget_None:
  assumes "\<not> isInArchive cfg (path f) \<or> normalizePath (path f) = rootOf (archiveRoot cfg)"
  shows "buildUnarchiveTarget cfg f = None"
  using assms by (auto simp: buildUnarchiveTarget_def Let_def isInArchive_normalizePath)

lemma processFile_at_root:
  assumes "normalizePath (path f) = rootOf (archiveRoot cfg)"
  shows "processFile H cfg v f = Some (Inr (NoAction, v, f))"
proof -
  have "isInArchive cfg (path f)" using assms by (simp add: isInArchive_def)
  moreover have "buildUnarchiveTarget cfg f = None" using assms by (simp add: buildUnarchiveTarget_None)
  ultimately show ?thesis by (simp add: processFile_def Let_def)
qed

subsection \<open>Classification\<close>

lemma norm_str_literals:
  "norm_str ''TRUE'' = ''true''" "norm_str ''yes'' = ''yes''" "norm_str ''no'' = ''no''"
  "norm_str '' true '' = ''true''"
  by code_simp+

lemma normTag_literals:
  "normTag ''#Archived'' = ''archived''" "normTag ''archived'' = ''archived''"
  "normTag '' Archived '' = ''archived''" "normTag ''Archived'' = ''archived''"
  by code_simp+

lemma splitFields_literals:
  "map normTag (splitFields (\<lambda>c. c = CHR '','' \<or> isSpace c) [] ''#Archived'') = [''archived'']"
  "map normTag (splitFields (\<lambda>c. c = CHR '','' \<or> isSpace c) [] ''archived'') = [''archived'']"
  "map normTag (splitFields (\<lambda>c. c = CHR '','' \<or> isSpace c) [] '' Archived '') = [''archived'']"
  by code_simp+

lemma stringTags_mem: "JString t \<in> set vs \<Longrightarrow> normTag t \<in> set (stringTags vs)"
  by (induction vs rule: stringTags.induct) auto

lemma shouldArchive_tag:
  assumes "tg \<in> set (tagSet (cache f))" "tg \<in> set (map normTag (tags cfg))"
  shows "shouldArchive cfg f"
proof -
  from assms(2) have "tags cfg \<noteq> []" by auto
  with assms show ?thesis by (auto simp: shouldArchive_def list_ex_iff Let_def)
qed

lemma carriesTag_tagSet:
  assumes "carriesTag f t" "normTag t = ''archived''"
    "map normTag (splitFields (\<lambda>c. c = CHR '','' \<or> isSpace c) [] t) = [''archived'']"
  shows "''archived'' \<in> set (tagSet (cache f))"
proof -
  from assms(1) obtain c where c: "cache f = Some c" by (auto simp: carriesTag_def split: option.splits)
  show ?thesis
  proof (cases "case inlineTags c of None \<Rightarrow> False | Some ts \<Rightarrow> t \<in> set ts")
    case True
    then obtain ts where "inlineTags c = Some ts" "t \<in> set ts" by (auto split: option.splits)
    then have "normTag t \<in> set (tagSet (cache f))" by (simp add: tagSet_def c)
    with assms(2) show ?thesis by simp
  next
    case False
    with assms(1) c obtain fm where fm: "frontmatter c = Some fm"
      and m: "case map_of fm ''tags'' of Some (JArray vs) \<Rightarrow> JString t \<in> set vs
              | Some (JString s) \<Rightarrow> s = t | _ \<Rightarrow> False"
      by (auto simp: carriesTag_def split: option.splits)
    have "''archived'' \<in> set (frontmatterTags (Some fm))"
    proof (cases "map_of fm ''tags''")
      case None
      with m show ?thesis by simp
    next
      case (Some x)
      show ?thesis
      proof (cases x)
        case (JArray vs)
        with m Some have "JString t \<in> set vs" by simp
        then have "normTag t \<in> set (stringTags vs)" by (rule stringTags_mem)
        with assms(2) Some JArray show ?thesis by (simp add: frontmatterTags_def getProp_def)
      next
        case (JString s)
        with m Some have "s = t" by simp
        with assms(3) Some JString show ?thesis by (simp add: frontmatterTags_def getProp_def)
      qed (use m Some in simp_all)
    qed
    then show ?thesis by (simp add: tagSet_def c fm)
  qed
qed

subsection \<open>The collision loop\<close>

lemma probe_first_free:
  assumes "\<not> ex (candidate base ext n)"
    and "\<forall>k. i \<le> k \<and> k < n \<longrightarrow> ex (candidate base ext k)"
    and "i \<le> n"
  shows "probe ex base ext i = Some (candidate base ext n)"
  using assms
proof (induction "n - i" arbitrary: i)
  case 0
  then have "i = n" by simp
  with 0 show ?case by (subst probe.simps) simp
next
  case (Suc d)
  then have lt: "i < n" by simp
  with Suc.prems have e: "ex (candidate base ext i)" by simp
  have "probe ex base ext (Suc i) = Some (candidate base ext n)"
  proof (rule Suc.hyps(1))
    show "d = n - Suc i" using Suc.hyps(2) by simp
    show "\<not> ex (candidate base ext n)" by (rule Suc.prems(1))
    show "\<forall>k. Suc i \<le> k \<and> k < n \<longrightarrow> ex (candidate base ext k)" using Suc.prems(2) by simp
    show "Suc i \<le> n" using lt by simp
  qed
  with e show ?case by (subst probe.simps) simp
qed

lemma lastIndexOf_None_iff: "lastIndexOf s c = None \<longleftrightarrow> c \<notin> set s"
  by (induction s) (auto split: option.splits)

lemma lastIndexOf_last:
  "c \<notin> set x \<Longrightarrow> lastIndexOf (b @ c # x) c = Some (length b)"
  by (induction b) (simp_all add: lastIndexOf_None_iff [THEN iffD2])

subsection \<open>The scan loop\<close>

lemma scanLoop_append:
  "scanLoop H cfg r (fs1 @ fs2) =
     (case scanLoop H cfg r fs1 of
        None \<Rightarrow> None
      | Some (Inl ev) \<Rightarrow> Some (Inl ev)
      | Some (Inr r1) \<Rightarrow> scanLoop H cfg r1 fs2)"
proof (induction fs1 arbitrary: r)
  case Nil
  show ?case by simp
next
  case (Cons f fs)
  show ?case
  proof (cases "processFile H cfg (vault r) f")
    case None
    then show ?thesis by simp
  next
    case (Some res)
    show ?thesis
    proof (cases res)
      case (Inl ev)
      with Some show ?thesis by simp
    next
      case (Inr ok)
      obtain out v' f' where "ok = (out, v', f')" by (cases ok)
      with Some Inr show ?thesis by (simp add: Cons.IH Let_def)
    qed
  qed
qed

subsection \<open>What a call of processFile leaves behind\<close>

lemma normalizePath_trailing_slash:
  assumes "canonical r"
  shows "normalizePath (r @ ''/'') = r"
proof -
  from assms have r: "r \<noteq> []" "hd r \<noteq> CHR ''/''" "last r \<noteq> CHR ''/''" "noDoubleSlash r"
    "\<forall>c \<in> set r. c \<noteq> CHR 0x5C \<and> c \<noteq> CHR 0xA0"
    by (simp_all add: canonical_def)
  have "noDoubleSlash (r @ ''/'')" using r by (simp add: noDoubleSlash_append)
  moreover have "\<forall>c \<in> set (r @ ''/''). c \<noteq> CHR 0x5C" using r(5) by simp
  ultimately have c: "collapse (r @ ''/'') = r @ ''/''" by (rule collapse_id [rotated])
  have "dropWhile (\<lambda>c. c = CHR ''/'') (r @ ''/'') = r @ ''/''"
    using r(1,2) by (subst dropWhile_eq_self_iff) simp
  moreover have "stripTrailingSlashes (r @ ''/'') = stripTrailingSlashes r"
    by (simp add: stripTrailingSlashes_def)
  ultimately have "stripSlashes (r @ ''/'') = r"
    using r(3) by (simp add: stripSlashes_def stripTrailingSlashes_id)
  with c r(1,5) show ?thesis by (simp add: normalizePath_def map_nbspToSpace_id)
qed

lemma buildArchiveTarget_normalized:
  "buildArchiveTarget cfg (f\<lparr>path := normalizePath (path f)\<rparr>) = buildArchiveTarget cfg f"
  by (simp add: buildArchiveTarget_def normalizePath_idem)

lemma archive_target_in_archive:
  assumes "canonical (rootOf (archiveRoot cfg))"
  shows "isInArchive cfg (full (buildArchiveTarget cfg f))"
proof (cases "normalizePath (path f) = ''/''")
  case True
  have "full (buildArchiveTarget cfg f) = normalizePath (rootOf (archiveRoot cfg) @ ''/'')"
    by (simp add: buildArchiveTarget_def True Let_def)
  then have "full (buildArchiveTarget cfg f) = rootOf (archiveRoot cfg)"
    using assms by (simp add: normalizePath_trailing_slash)
  then show ?thesis using assms by (simp add: isInArchive_def normalizePath_canonical)
next
  case False
  let ?g = "f\<lparr>path := normalizePath (path f)\<rparr>"
  from False have c: "canonical (path ?g)" using normalizePath_result [of "path f"] by simp
  have "full (buildArchiveTarget cfg ?g) = rootOf (archiveRoot cfg) @ ''/'' @ path ?g"
    using c assms by (rule archive_full_canonical)
  then have "full (buildArchiveTarget cfg f) = rootOf (archiveRoot cfg) @ ''/'' @ path ?g"
    by (simp only: buildArchiveTarget_normalized)
  then show ?thesis using isInArchive_under [OF assms c] by simp
qed

lemma shouldArchive_path: "shouldArchive cfg (f\<lparr>path := d\<rparr>) = shouldArchive cfg f"
  by (simp add: shouldArchive_def)

lemma moveTo_returns:
  assumes "moveTo H v f p done = Some (Inr (out, v1, f1))"
  shows "\<exists>dest. out = done dest \<and> f1 = f\<lparr>path := dest\<rparr>"
  using assms by (auto simp: moveTo_def split: option.splits sum.splits)

lemma processFile_stays:
  assumes "extension f = ''md''"
    and "shouldArchive cfg f \<longrightarrow> isInArchive cfg (path f)"
    and "\<not> shouldArchive cfg f \<longrightarrow> \<not> isInArchive cfg (path f)"
  shows "processFile H cfg v f = Some (Inr (NoAction, v, f))"
  using assms by (auto simp: processFile_def Let_def)

lemma sum_case_returns:
  "(case x of Inl ev \<Rightarrow> Some (Inl ev) | Inr v0 \<Rightarrow> g v0) = Some (Inr y) \<Longrightarrow> \<exists>v0. g v0 = Some (Inr y)"
  by (cases x) auto

lemma processFile_archive:
  assumes "extension f = ''md''" "\<not> isExcluded cfg (path f)"
    "shouldArchive cfg f" "\<not> isInArchive cfg (path f)" "\<not> dryRun cfg"
  shows "processFile H cfg v f =
           (case ensureFolderExists H v (dir (buildArchiveTarget cfg f)) of
              Inl ev \<Rightarrow> Some (Inl ev)
            | Inr v0 \<Rightarrow> moveTo H v0 f (full (buildArchiveTarget cfg f)) Archived)"
  using assms by (simp add: processFile_def Let_def)

lemma processFile_unarchive:
  assumes "extension f = ''md''" "\<not> isExcluded cfg (path f)"
    "\<not> shouldArchive cfg f" "isInArchive cfg (path f)" "unarchiveOnMissingAll cfg"
    "\<not> dryRun cfg" "buildUnarchiveTarget cfg f = Some t"
  shows "processFile H cfg v f =
           (case (if dir t \<noteq> [] then ensureFolderExists H v (dir t) else Inr v) of
              Inl ev \<Rightarrow> Some (Inl ev)
            | Inr v0 \<Rightarrow> moveTo H v0 f (full t) Unarchived)"
  using assms by (simp add: processFile_def Let_def)

subsection \<open>Candidate paths\<close>

lemma digit_char: "k < 10 \<Longrightarrow> char_of (48 + k :: nat) \<in> set ''0123456789''"
proof -
  assume "k < 10"
  then have "k \<in> {0, 1, 2, 3, 4, 5, 6, 7, 8, 9}" by auto
  then show ?thesis by (elim insertE emptyE) (simp_all, code_simp+)
qed

lemma showNat_digits: "set (showNat n) \<subseteq> set ''0123456789''"
proof (induction n rule: showNat.induct)
  case (1 n)
  show ?case
  proof (cases "n < 10")
    case True
    then show ?thesis using digit_char [of n] by (subst showNat.simps) simp
  next
    case False
    have "n mod 10 < 10" by simp
    then have "char_of (48 + n mod 10) \<in> set ''0123456789''" by (rule digit_char)
    with False 1 show ?thesis by (subst showNat.simps) simp
  qed
qed

lemma suffix_clean: "clean ('' ('' @ showNat n @ '')'')"
  using showNat_digits [of n] by (auto simp: clean_def)

lemma clean_noDoubleSlash: "clean m \<Longrightarrow> noDoubleSlash m"
  by (induction m) (auto simp: clean_def)

lemma canonical_insert:
  assumes "canonical (b @ e)" "clean m" "m \<noteq> []"
  shows "canonical (b @ m @ e)"
proof -
  from assms(1) have t: "hd (b @ e) \<noteq> CHR ''/''" "last (b @ e) \<noteq> CHR ''/''"
    "noDoubleSlash (b @ e)" "\<forall>c \<in> set b \<union> set e. c \<noteq> CHR 0x5C \<and> c \<noteq> CHR 0xA0"
    by (auto simp: canonical_def)
  from assms(2,3) have m: "hd m \<noteq> CHR ''/''" "last m \<noteq> CHR ''/''"
    "\<forall>c \<in> set m. c \<noteq> CHR 0x5C \<and> c \<noteq> CHR 0xA0"
    by (auto simp: clean_def)
  have nb: "noDoubleSlash b" and ne: "noDoubleSlash e" using t(3) by (simp_all add: noDoubleSlash_append)
  have "noDoubleSlash (m @ e)"
    using ne m(2) assms(2,3) by (simp add: noDoubleSlash_append clean_noDoubleSlash)
  moreover have "hd (m @ e) \<noteq> CHR ''/''" using m(1) assms(3) by simp
  ultimately have 1: "noDoubleSlash (b @ m @ e)"
    using nb assms(3) by (simp add: noDoubleSlash_append)
  have 2: "hd (b @ m @ e) \<noteq> CHR ''/''"
  proof (cases "b = []")
    case True
    then show ?thesis using m(1) assms(3) by simp
  next
    case False
    then show ?thesis using t(1) by simp
  qed
  have 3: "last (b @ m @ e) \<noteq> CHR ''/''"
  proof (cases "e = []")
    case True
    then show ?thesis using m(2) assms(3) by simp
  next
    case False
    then show ?thesis using t(2) by simp
  qed
  have 4: "\<forall>c \<in> set (b @ m @ e). c \<noteq> CHR 0x5C \<and> c \<noteq> CHR 0xA0" using t(4) m(3) by auto
  from 1 2 3 4 assms(3) show ?thesis by (simp add: canonical_def)
qed

lemma candidate_literal:
  assumes "canonical (b @ e)"
  shows "candidate b e k = b @ '' ('' @ showNat k @ '')'' @ e"
proof -
  have "canonical (b @ ('' ('' @ showNat k @ '')'') @ e)"
    using assms suffix_clean by (rule canonical_insert) simp
  then have "normalizePath (b @ ('' ('' @ showNat k @ '')'') @ e) = b @ ('' ('' @ showNat k @ '')'') @ e"
    by (rule normalizePath_canonical)
  then show ?thesis by (simp add: candidate_def)
qed

lemma firstFree_probe:
  assumes "canonical (b @ e)" "firstFree ex b e n"
  shows "probe ex b e 1 = Some (b @ '' ('' @ showNat n @ '')'' @ e)"
proof -
  have "probe ex b e 1 = Some (candidate b e n)"
  proof (rule probe_first_free)
    show "\<not> ex (candidate b e n)" using assms by (simp add: candidate_literal firstFree_def)
    show "\<forall>k. 1 \<le> k \<and> k < n \<longrightarrow> ex (candidate b e k)"
      using assms by (simp add: candidate_literal firstFree_def)
    show "1 \<le> n" using assms(2) by (simp add: firstFree_def)
  qed
  then show ?thesis using assms(1) by (simp add: candidate_literal)
qed

subsection \<open>The paths that reach the collision loop\<close>

lemma collapse_clean: "\<forall>c \<in> set u. \<not> isSep c \<Longrightarrow> collapse u = u"
  by (induction u) simp_all

lemma dropWhile_append_keep:
  assumes "u \<noteq> []" "\<not> P (hd u)"
  shows "dropWhile P (s @ u) = dropWhile P s @ u"
proof (induction s)
  case Nil
  from assms show ?case by (cases u) simp_all
next
  case (Cons c cs)
  then show ?case by simp
qed

lemma collapse_append_clean:
  assumes "u \<noteq> []" "\<forall>c \<in> set u. \<not> isSep c"
  shows "collapse (s @ u) = collapse s @ u"
proof (induction s rule: collapse.induct)
  case 1
  show ?case using assms(2) by (simp add: collapse_clean)
next
  case (2 c cs)
  have h: "\<not> isSep (hd u)" using assms by (cases u) simp_all
  show ?case
  proof (cases "isSep c")
    case True
    have "dropWhile isSep (cs @ u) = dropWhile isSep cs @ u"
      using assms(1) h by (rule dropWhile_append_keep)
    with True 2 show ?thesis by simp
  next
    case False
    with 2 show ?thesis by simp
  qed
qed

lemma normalizePath_keeps_suffix:
  assumes "clean u" "u \<noteq> []"
  shows "\<exists>w. normalizePath (s @ u) = w @ u"
proof -
  let ?P = "\<lambda>c. c = CHR ''/''"
  from assms have ns: "\<forall>c \<in> set u. \<not> isSep c" by (auto simp: clean_def isSep_def)
  from assms have h: "\<not> ?P (hd u)" and l: "last u \<noteq> CHR ''/''" by (auto simp: clean_def)
  have c: "collapse (s @ u) = collapse s @ u" using assms(2) ns by (rule collapse_append_clean)
  have d: "dropWhile ?P (collapse s @ u) = dropWhile ?P (collapse s) @ u"
    using assms(2) h by (rule dropWhile_append_keep)
  have "last (dropWhile ?P (collapse s) @ u) \<noteq> CHR ''/''" using l assms(2) by simp
  then have st: "stripSlashes (collapse s @ u) = dropWhile ?P (collapse s) @ u"
    by (simp add: stripSlashes_def d stripTrailingSlashes_id)
  have "map nbspToSpace u = u" using assms(1) by (intro map_nbspToSpace_id) (simp add: clean_def)
  then have "normalizePath (s @ u) = map nbspToSpace (dropWhile ?P (collapse s)) @ u"
    using assms(2) by (simp add: normalizePath_def c st)
  then show ?thesis by blast
qed

lemma clean_md: "clean ''.md''"
  by (simp add: clean_def)

lemma drop_keeps_suffix:
  assumes "lastIndexOf (w @ u) CHR ''/'' = Some k" "CHR ''/'' \<notin> set u"
  shows "drop (k + 1) (w @ u) = drop (k + 1) w @ u"
proof -
  from lastIndexOf_Some [OF assms(1)] have k: "k < length (w @ u)" "(w @ u) ! k = CHR ''/''" by simp_all
  have "k < length w"
  proof (rule ccontr)
    assume "\<not> k < length w"
    then have "(w @ u) ! k = u ! (k - length w)" "k - length w < length u"
      using k(1) by (simp_all add: nth_append)
    then have "(w @ u) ! k \<in> set u" by simp
    with k(2) assms(2) show False by simp
  qed
  then show ?thesis by simp
qed

text \<open>The host derives a file's extension from its path: a file of extension \<^verbatim>\<open>md\<close> has
  a path that ends in \<^verbatim>\<open>.md\<close>. For such a file the archive target is a normalised path
  that ends in \<^verbatim>\<open>.md\<close>, so its last dot is in the file name.\<close>

lemma archive_target_md:
  assumes "suffix ''.md'' (path f)"
  shows "\<exists>b. full (buildArchiveTarget cfg f) = b @ ''.'' @ ''md''"
proof -
  from assms obtain w0 where "path f = w0 @ ''.md''" by (auto simp: suffix_def)
  then obtain w where w: "normalizePath (path f) = w @ ''.md''"
    using normalizePath_keeps_suffix [OF clean_md, of w0] by auto
  let ?r = "rootOf (archiveRoot cfg)"
  show ?thesis
  proof (cases "lastIndexOf (w @ ''.md'') CHR ''/''")
    case None
    then have "full (buildArchiveTarget cfg f) = normalizePath ((?r @ ''/'' @ w) @ ''.md'')"
      by (simp add: buildArchiveTarget_def w Let_def)
    then show ?thesis using normalizePath_keeps_suffix [OF clean_md, of "?r @ ''/'' @ w"] by auto
  next
    case (Some k)
    then have d: "drop (k + 1) (w @ ''.md'') = drop (k + 1) w @ ''.md''"
      by (rule drop_keeps_suffix) simp
    obtain td where "full (buildArchiveTarget cfg f) = normalizePath ((td @ ''/'' @ drop (k + 1) w) @ ''.md'')"
      using Some d by (simp add: buildArchiveTarget_def w Let_def)
    then show ?thesis using normalizePath_keeps_suffix [OF clean_md, of "td @ ''/'' @ drop (k + 1) w"] by auto
  qed
qed

lemma suffix_past_slash:
  assumes "a @ u = c @ rest" "c \<noteq> []" "last c = CHR ''/''" "CHR ''/'' \<notin> set u"
  shows "suffix u rest"
proof -
  from assms(1) consider us where "a = c @ us" "us @ u = rest" | us where "a @ us = c" "u = us @ rest"
    by (auto simp: append_eq_append_conv2)
  then show ?thesis
  proof cases
    case 1
    then show ?thesis by (auto simp: suffix_def)
  next
    case 2
    show ?thesis
    proof (cases "us = []")
      case True
      with 2 show ?thesis by simp
    next
      case False
      with 2(1) have "last c = last us" by auto
      with False have "last c \<in> set us" by simp
      with 2(2) assms(3,4) show ?thesis by auto
    qed
  qed
qed

lemma if_md:
  assumes "y = (if P then normalizePath (a @ u) else normalizePath (b @ u))"
  shows "\<exists>s. y = normalizePath (s @ u)"
proof (cases P)
  case True
  with assms have "y = normalizePath (a @ u)" by (simp only: if_True)
  then show ?thesis by (rule exI)
next
  case False
  with assms have "y = normalizePath (b @ u)" by (simp only: if_False)
  then show ?thesis by (rule exI)
qed

lemma unarchive_target_md:
  assumes "suffix ''.md'' (path f)" "buildUnarchiveTarget cfg f = Some t"
  shows "\<exists>b. full t = b @ ''.'' @ ''md''"
proof -
  from assms(1) obtain w0 where "path f = w0 @ ''.md''" by (auto simp: suffix_def)
  then obtain w where w: "normalizePath (path f) = w @ ''.md''"
    using normalizePath_keeps_suffix [OF clean_md, of w0] by auto
  let ?r = "rootOf (archiveRoot cfg)"
  from assms(2) have inA: "isInArchive cfg (w @ ''.md'')" and ne: "w @ ''.md'' \<noteq> ?r"
    by (auto simp: buildUnarchiveTarget_def w Let_def split: if_splits)
  have "normalizePath (w @ ''.md'') = w @ ''.md''" using w normalizePath_idem [of "path f"] by simp
  with inA ne have "startsWith (w @ ''.md'') (?r @ ''/'')" by (simp add: isInArchive_def Let_def)
  then obtain rest where rest: "w @ ''.md'' = (?r @ ''/'') @ rest"
    using startsWith_iff by blast
  then have dr: "drop (Suc (length ?r)) (w @ ''.md'') = r' @ ''.md''" if "rest = r' @ ''.md''" for r'
    using that by simp
  have "suffix ''.md'' rest" using rest by (rule suffix_past_slash) simp_all
  then obtain r' where r': "rest = r' @ ''.md''" by (auto simp: suffix_def)
  note dr = dr [OF r']
  show ?thesis
  proof (cases "lastIndexOf (r' @ ''.md'') CHR ''/''")
    case None
    then have "full t = normalizePath (r' @ ''.md'')"
      using assms(2) inA ne by (auto simp: buildUnarchiveTarget_def w Let_def dr simp del: drop_append)
    then show ?thesis using normalizePath_keeps_suffix [OF clean_md, of r'] by auto
  next
    case (Some k)
    then have d: "drop (k + 1) (r' @ ''.md'') = drop (k + 1) r' @ ''.md''"
      by (rule drop_keeps_suffix) simp
    have "\<exists>s. full t = normalizePath (s @ ''.md'')"
    proof (cases "take k (r' @ ''.md'') = []")
      case True
      then have "full t = normalizePath (drop (k + 1) r' @ ''.md'')"
        using assms(2) inA ne Some d by (auto simp: buildUnarchiveTarget_def w Let_def dr simp del: drop_append)
      then show ?thesis by blast
    next
      case False
      let ?d = "normalizePath (take k (r' @ ''.md''))"
      have "full t = (if ?d \<noteq> [] then normalizePath ((?d @ ''/'' @ drop (k + 1) r') @ ''.md'')
                      else normalizePath (drop (k + 1) r' @ ''.md''))"
        using assms(2) inA ne Some d False by (auto simp: buildUnarchiveTarget_def w Let_def dr simp del: drop_append)
      then show ?thesis by (rule if_md)
    qed
    then obtain s where "full t = normalizePath (s @ ''.md'')" ..
    then show ?thesis using normalizePath_keeps_suffix [OF clean_md, of s] by auto
  qed
qed

lemma ends_md_not_root: "b @ ''.'' @ ''md'' \<noteq> ''/''"
  by (cases b) simp_all

text \<open>So every path that \<^verbatim>\<open>processFile\<close> hands to \<^verbatim>\<open>resolveCollision\<close> for such a file
  is normalised, is not the vault root, and has its last dot before the extension
  \<^verbatim>\<open>md\<close>.\<close>

lemma targets_reach_resolveCollision:
  assumes "suffix ''.md'' (path f)"
  shows "normalizePath (full (buildArchiveTarget cfg f)) = full (buildArchiveTarget cfg f) \<and>
         full (buildArchiveTarget cfg f) \<noteq> ''/'' \<and>
         (\<exists>b. full (buildArchiveTarget cfg f) = b @ ''.'' @ ''md'') \<and>
         (\<forall>t. buildUnarchiveTarget cfg f = Some t \<longrightarrow>
              normalizePath (full t) = full t \<and> full t \<noteq> ''/'' \<and> (\<exists>b. full t = b @ ''.'' @ ''md''))"
proof (intro conjI allI impI)
  show "normalizePath (full (buildArchiveTarget cfg f)) = full (buildArchiveTarget cfg f)"
    by (simp add: buildArchiveTarget_def Let_def normalizePath_idem)
  show a: "\<exists>b. full (buildArchiveTarget cfg f) = b @ ''.'' @ ''md''"
    using assms by (rule archive_target_md)
  then show "full (buildArchiveTarget cfg f) \<noteq> ''/''" using ends_md_not_root by metis
next
  fix t assume t: "buildUnarchiveTarget cfg f = Some t"
  then show "normalizePath (full t) = full t"
    by (auto simp: buildUnarchiveTarget_def Let_def normalizePath_idem split: if_splits)
  show u: "\<exists>b. full t = b @ ''.'' @ ''md''" using assms t by (rule unarchive_target_md)
  then show "full t \<noteq> ''/''" using ends_md_not_root by metis
qed

section \<open>The claims\<close>

subsection \<open>C1: a failing file ends the scan\<close>

text \<open>
  C1, as amended. \<^verbatim>\<open>scanAll\<close> does not catch what \<^verbatim>\<open>processFile\<close> throws. When the
  files before \<open>f\<close> are processed without failure and \<open>f\<close> fails, the scan ends there
  with that failure: the files after \<open>f\<close> are not processed, whatever they are, no counts
  are produced, and the handler of the scan command reports the failure.
\<close>

theorem scan_stops_at_first_failure:
  assumes "scanAll H cfg v fs1 = Some (Inr r1)"
    and "processFile H cfg (vault r1) f = Some (Inl (e, v'))"
  shows "scanAll H cfg v (fs1 @ f # fs2) = Some (Inl (e, v')) \<and>
         scanCommand H cfg v (fs1 @ f # fs2) = Some (ErrorReported e v')"
proof -
  have "scanLoop H cfg r1 (f # fs2) = Some (Inl (e, v'))" using assms(2) by simp
  with assms(1) have "scanAll H cfg v (fs1 @ f # fs2) = Some (Inl (e, v'))"
    by (simp add: scanAll_def scanLoop_append)
  then show ?thesis by (simp add: scanCommand_def)
qed

theorem scan_stops_at_first_failure_witness:
  "scanAll listVault DEFAULT_SETTINGS [''a.md'', ''b.md''] [mdNote ''a.md'' [(''Archived'', JBoolean True)]]
     = Some (Inr \<lparr> vault = [''Archive/a.md'', ''b.md'', ''Archive''],
                   files = [mdNote ''Archive/a.md'' [(''Archived'', JBoolean True)]],
                   archived = 1, unarchived = 0 \<rparr>) \<and>
   processFile listVault DEFAULT_SETTINGS [''Archive/a.md'', ''b.md'', ''Archive'']
     (mdNote ''gone.md'' [(''Archived'', JBoolean True)])
     = Some (Inl (''File not found'', [''Archive/a.md'', ''b.md'', ''Archive''])) \<and>
   scanCommand listVault DEFAULT_SETTINGS [''a.md'', ''b.md'']
     ([mdNote ''a.md'' [(''Archived'', JBoolean True)]] @
      mdNote ''gone.md'' [(''Archived'', JBoolean True)] #
      [mdNote ''b.md'' [(''Archived'', JBoolean True)]])
     = Some (ErrorReported ''File not found'' [''Archive/a.md'', ''b.md'', ''Archive''])"
proof -
  let ?r = "\<lparr> vault = [''Archive/a.md'', ''b.md'', ''Archive''],
              files = [mdNote ''Archive/a.md'' [(''Archived'', JBoolean True)]],
              archived = 1, unarchived = 0 \<rparr>"
  have h1: "scanAll listVault DEFAULT_SETTINGS [''a.md'', ''b.md'']
              [mdNote ''a.md'' [(''Archived'', JBoolean True)]] = Some (Inr ?r)"
    by code_simp
  have h2': "processFile listVault DEFAULT_SETTINGS [''Archive/a.md'', ''b.md'', ''Archive'']
              (mdNote ''gone.md'' [(''Archived'', JBoolean True)])
            = Some (Inl (''File not found'', [''Archive/a.md'', ''b.md'', ''Archive'']))"
    by code_simp
  then have h2: "processFile listVault DEFAULT_SETTINGS (vault ?r)
              (mdNote ''gone.md'' [(''Archived'', JBoolean True)])
            = Some (Inl (''File not found'', [''Archive/a.md'', ''b.md'', ''Archive'']))"
    by simp
  from scan_stops_at_first_failure [OF h1 h2, of "[mdNote ''b.md'' [(''Archived'', JBoolean True)]]"] h1 h2'
  show ?thesis by blast
qed

text \<open>The claim as stated has the failure caught for each file. With a first file that is no
  longer in the vault, the scan throws and the second file, which alone would have
  been archived, is never looked at.\<close>

theorem scan_catches_per_document_counterexample:
  "scanAll listVault DEFAULT_SETTINGS [''b.md'']
     [mdNote ''gone.md'' [(''Archived'', JBoolean True)], mdNote ''b.md'' [(''Archived'', JBoolean True)]]
     = Some (Inl (''File not found'', [''b.md'', ''Archive''])) \<and>
   processFile listVault DEFAULT_SETTINGS [''b.md'', ''Archive''] (mdNote ''b.md'' [(''Archived'', JBoolean True)])
     = Some (Inr (Archived ''Archive/b.md'', [''Archive/b.md'', ''Archive''],
                  mdNote ''Archive/b.md'' [(''Archived'', JBoolean True)]))"
  by code_simp

subsection \<open>C2: collisions\<close>

text \<open>
  C2. Let the desired path be a path as \<^verbatim>\<open>processFile\<close> passes it: normalised and not the
  vault root. If it does not exist it is returned unchanged. If it exists and its last
  dot lies in the last component (no slash follows the dot), base and extension are the
  parts before and from that dot; if it has no dot, the base is the whole path and the
  extension is empty. The result is \<^verbatim>\<open>base + " (n)" + ext\<close> for the first \<open>n\<close> from 1 on
  for which that path does not exist.
\<close>

theorem resolveCollision_first_free:
  assumes "normalizePath t = t" and "t \<noteq> ''/''"
  shows
    "(\<not> ex t \<longrightarrow> resolveCollision ex t = Some t) \<and>
     (ex t \<and> t = b @ ''.'' @ x \<and> CHR ''.'' \<notin> set x \<and> CHR ''/'' \<notin> set x \<and>
      firstFree ex b (''.'' @ x) n
        \<longrightarrow> resolveCollision ex t = Some (b @ '' ('' @ showNat n @ '')'' @ ''.'' @ x)) \<and>
     (ex t \<and> CHR ''.'' \<notin> set t \<and> firstFree ex t [] n
        \<longrightarrow> resolveCollision ex t = Some (t @ '' ('' @ showNat n @ '')''))"
proof (intro conjI impI)
  assume "\<not> ex t"
  then show "resolveCollision ex t = Some t" by (simp add: resolveCollision_def assms(1))
next
  have c: "canonical t" using normalizePath_result [of t] assms by simp
  assume a: "ex t \<and> t = b @ ''.'' @ x \<and> CHR ''.'' \<notin> set x \<and> CHR ''/'' \<notin> set x \<and>
      firstFree ex b (''.'' @ x) n"
  then have eq: "t = b @ CHR ''.'' # x" by simp
  have d: "lastIndexOf t CHR ''.'' = Some (length b)" using a by (simp add: eq lastIndexOf_last)
  have s: "\<not> endsWithSlash t" using c by (simp add: canonical_def endsWithSlash_def)
  have cb: "canonical (b @ CHR ''.'' # x)" using c eq by simp
  have "probe ex b (CHR ''.'' # x) 1 = Some (b @ '' ('' @ showNat n @ '')'' @ CHR ''.'' # x)"
    using cb a by (intro firstFree_probe) simp_all
  moreover have "resolveCollision ex t = probe ex b (CHR ''.'' # x) 1"
  proof -
    from a have ext: "ex t" by blast
    have "resolveCollision ex t = probe ex (take (length b) t) (drop (length b) t) 1"
      using ext d s by (simp add: resolveCollision_def Let_def assms(1))
    then show ?thesis by (simp add: eq)
  qed
  ultimately show "resolveCollision ex t = Some (b @ '' ('' @ showNat n @ '')'' @ ''.'' @ x)"
    by simp
next
  have c: "canonical t" using normalizePath_result [of t] assms by simp
  assume a: "ex t \<and> CHR ''.'' \<notin> set t \<and> firstFree ex t [] n"
  then have d: "lastIndexOf t CHR ''.'' = None" by (simp add: lastIndexOf_None_iff)
  have "probe ex t [] 1 = Some (t @ '' ('' @ showNat n @ '')'' @ [])"
    using c a by (intro firstFree_probe) simp_all
  moreover have "resolveCollision ex t = probe ex t [] 1"
  proof -
    from a have ext: "ex t" by blast
    then show ?thesis using d by (simp add: resolveCollision_def Let_def assms(1))
  qed
  ultimately show "resolveCollision ex t = Some (t @ '' ('' @ showNat n @ '')'')"
    by simp
qed

theorem resolveCollision_first_free_witness:
  "resolveCollision (\<lambda>p. p \<in> set [''Archive/Task/TASK-1.md'', ''Archive/Task/TASK-1 (1).md''])
     ''Archive/Task/TASK-1.md'' = Some ''Archive/Task/TASK-1 (2).md'' \<and>
   resolveCollision (\<lambda>p. p \<in> set [''Archive/README'']) ''Archive/README'' = Some ''Archive/README (1)'' \<and>
   resolveCollision (\<lambda>p. False) ''Archive/Task/TASK-1.md'' = Some ''Archive/Task/TASK-1.md''"
proof -
  let ?ex = "\<lambda>p. p \<in> set [''Archive/Task/TASK-1.md'', ''Archive/Task/TASK-1 (1).md'']"
  let ?ey = "\<lambda>p. p \<in> set [''Archive/README'']"
  have n: "normalizePath ''Archive/Task/TASK-1.md'' = ''Archive/Task/TASK-1.md''" by code_simp
  have n': "''Archive/Task/TASK-1.md'' \<noteq> ''/''" by simp
  have m: "normalizePath ''Archive/README'' = ''Archive/README''" by code_simp
  have m': "''Archive/README'' \<noteq> ''/''" by simp
  have h1: "?ex ''Archive/Task/TASK-1.md'' \<and>
            ''Archive/Task/TASK-1.md'' = ''Archive/Task/TASK-1'' @ ''.'' @ ''md'' \<and>
            CHR ''.'' \<notin> set ''md'' \<and> CHR ''/'' \<notin> set ''md'' \<and>
            firstFree ?ex ''Archive/Task/TASK-1'' (''.'' @ ''md'') 2"
    by code_simp
  have r1: "''Archive/Task/TASK-1'' @ '' ('' @ showNat 2 @ '')'' @ ''.'' @ ''md''
            = ''Archive/Task/TASK-1 (2).md''" by code_simp
  have h2: "?ey ''Archive/README'' \<and> CHR ''.'' \<notin> set ''Archive/README'' \<and>
            firstFree ?ey ''Archive/README'' [] 1"
    by code_simp
  have r2: "''Archive/README'' @ '' ('' @ showNat 1 @ '')'' = ''Archive/README (1)''"
    by code_simp
  have 1: "resolveCollision ?ex ''Archive/Task/TASK-1.md'' = Some ''Archive/Task/TASK-1 (2).md''"
    using resolveCollision_first_free [OF n n', of ?ex "''Archive/Task/TASK-1''" "''md''" 2,
        THEN conjunct2, THEN conjunct1, rule_format, OF h1]
    unfolding r1 .
  have 2: "resolveCollision ?ey ''Archive/README'' = Some ''Archive/README (1)''"
    using resolveCollision_first_free [OF m m', of ?ey _ _ 1,
        THEN conjunct2, THEN conjunct2, rule_format, OF h2]
    unfolding r2 .
  have 3: "resolveCollision (\<lambda>p. False) ''Archive/Task/TASK-1.md'' = Some ''Archive/Task/TASK-1.md''"
    using resolveCollision_first_free [OF n n', of "\<lambda>p. False", THEN conjunct1, rule_format]
    by simp
  from 1 2 3 show ?thesis by blast
qed

subsection \<open>C3: path symmetry\<close>

text \<open>
  C3, as amended. Let \<open>P\<close> be a document path in normal form (\<open>D/F\<close>, or \<open>F\<close> alone) and
  let the archive root not normalise to the vault root \<^verbatim>\<open>"/"\<close>, that is, let it be neither
  empty nor made of separators only. Then the archive target of \<open>P\<close> is \<open>root/P\<close>, and the
  unarchive target of a document at that path is \<open>P\<close> again.
\<close>

theorem path_symmetry:
  assumes "normalizePath P = P" and "P \<noteq> ''/''"
    and "normalizePath (archiveRoot cfg) \<noteq> ''/''"
    and "path f = P"
    and "path g = full (buildArchiveTarget cfg f)"
  shows "full (buildArchiveTarget cfg f) = rootOf (archiveRoot cfg) @ ''/'' @ P \<and>
         (\<exists>t. buildUnarchiveTarget cfg g = Some t \<and> full t = P)"
proof -
  have cp: "canonical (path f)"
    using normalizePath_result [of P] assms(1,2,4) by simp
  have cr: "canonical (rootOf (archiveRoot cfg))"
    using assms(3) by (rule rootOf_canonical)
  have a: "full (buildArchiveTarget cfg f) = rootOf (archiveRoot cfg) @ ''/'' @ path f"
    using cp cr by (rule archive_full_canonical)
  have "\<exists>t. buildUnarchiveTarget cfg g = Some t \<and> full t = path f"
    using cp cr by (rule unarchive_full_canonical) (simp add: assms(5) a)
  with a assms(4) show ?thesis by simp
qed

theorem path_symmetry_witness:
  "normalizePath ''Task/TASK-1234.md'' = ''Task/TASK-1234.md'' \<and>
   ''Task/TASK-1234.md'' \<noteq> ''/'' \<and>
   normalizePath (archiveRoot DEFAULT_SETTINGS) \<noteq> ''/'' \<and>
   full (buildArchiveTarget DEFAULT_SETTINGS (mdNote ''Task/TASK-1234.md'' [])) =
     rootOf (archiveRoot DEFAULT_SETTINGS) @ ''/'' @ ''Task/TASK-1234.md'' \<and>
   (\<exists>t. buildUnarchiveTarget DEFAULT_SETTINGS
          (mdNote (full (buildArchiveTarget DEFAULT_SETTINGS (mdNote ''Task/TASK-1234.md'' []))) [])
        = Some t \<and> full t = ''Task/TASK-1234.md'')"
proof -
  have h1: "normalizePath ''Task/TASK-1234.md'' = ''Task/TASK-1234.md''" by code_simp
  have h2: "''Task/TASK-1234.md'' \<noteq> ''/''" by simp
  have h3: "normalizePath (archiveRoot DEFAULT_SETTINGS) \<noteq> ''/''" by code_simp
  have h4: "path (mdNote ''Task/TASK-1234.md'' []) = ''Task/TASK-1234.md''"
    by (simp add: mdNote_def)
  have h5: "path (mdNote (full (buildArchiveTarget DEFAULT_SETTINGS (mdNote ''Task/TASK-1234.md'' []))) [])
            = full (buildArchiveTarget DEFAULT_SETTINGS (mdNote ''Task/TASK-1234.md'' []))"
    by (simp add: mdNote_def)
  from path_symmetry [OF h1 h2 h3 h4 h5] h1 h2 h3 show ?thesis by blast
qed

text \<open>The claim as stated ranges over every archive root. With the root \<^verbatim>\<open>"/"\<close> the
  archive target of \<^verbatim>\<open>a.md\<close> is \<^verbatim>\<open>a.md\<close> itself, which is not under the root the
  plugin computes, and the unarchive target is null.\<close>

theorem path_symmetry_counterexample:
  "full (buildArchiveTarget (DEFAULT_SETTINGS\<lparr>archiveRoot := ''/''\<rparr>) (mdNote ''a.md'' [])) = ''a.md'' \<and>
   buildUnarchiveTarget (DEFAULT_SETTINGS\<lparr>archiveRoot := ''/''\<rparr>)
     (mdNote (full (buildArchiveTarget (DEFAULT_SETTINGS\<lparr>archiveRoot := ''/''\<rparr>) (mdNote ''a.md'' []))) [])
   = None"
  by code_simp

subsection \<open>C4: the second call\<close>

text \<open>
  C4, as amended. Let the dry-run flag be off and the archive root not normalise to the
  vault root \<^verbatim>\<open>"/"\<close>. When a call of \<^verbatim>\<open>processFile\<close> returns, an archive move it made
  landed on the computed target (no collision), and an unarchive move it made landed on
  a path that is not itself under the archive root, then a second call on the file, with
  its metadata unchanged, does nothing: no action, the same vault, the same path.
\<close>

theorem second_call_is_NoAction:
  assumes "\<not> dryRun cfg"
    and "normalizePath (archiveRoot cfg) \<noteq> ''/''"
    and "processFile H cfg v f = Some (Inr (out, v1, f1))"
    and "\<forall>d. out = Archived d \<longrightarrow> d = full (buildArchiveTarget cfg f)"
    and "\<forall>d. out = Unarchived d \<longrightarrow> \<not> isInArchive cfg d"
  shows "processFile H cfg v1 f1 = Some (Inr (NoAction, v1, f1))"
proof -
  have cr: "canonical (rootOf (archiveRoot cfg))" using assms(2) by (rule rootOf_canonical)
  consider (skip) "extension f \<noteq> ''md'' \<or> isExcluded cfg (path f)"
    | (arch) "extension f = ''md''" "\<not> isExcluded cfg (path f)"
        "shouldArchive cfg f" "\<not> isInArchive cfg (path f)"
    | (unarch) "extension f = ''md''" "\<not> isExcluded cfg (path f)"
        "\<not> shouldArchive cfg f" "isInArchive cfg (path f)" "unarchiveOnMissingAll cfg"
    | (rest) "extension f = ''md''" "\<not> isExcluded cfg (path f)"
        "\<not> (shouldArchive cfg f \<and> \<not> isInArchive cfg (path f))"
        "\<not> (\<not> shouldArchive cfg f \<and> isInArchive cfg (path f) \<and> unarchiveOnMissingAll cfg)"
    by blast
  then show ?thesis
  proof cases
    case skip
    then have "processFile H cfg v f = Some (Inr (NoAction, v, f))" by (rule processFile_skips)
    with assms(3) have "v1 = v" "f1 = f" by simp_all
    with \<open>processFile H cfg v f = Some (Inr (NoAction, v, f))\<close> show ?thesis by simp
  next
    case arch
    let ?t = "buildArchiveTarget cfg f"
    have pf: "processFile H cfg v f =
           (case ensureFolderExists H v (dir ?t) of
              Inl ev \<Rightarrow> Some (Inl ev)
            | Inr v0 \<Rightarrow> moveTo H v0 f (full ?t) Archived)"
      using arch assms(1) by (rule processFile_archive)
    have "(case ensureFolderExists H v (dir ?t) of
              Inl ev \<Rightarrow> Some (Inl ev)
            | Inr v0 \<Rightarrow> moveTo H v0 f (full ?t) Archived) = Some (Inr (out, v1, f1))"
      using assms(3) by (simp only: pf)
    then have "\<exists>v0. moveTo H v0 f (full ?t) Archived = Some (Inr (out, v1, f1))"
      by (rule sum_case_returns)
    then obtain v0 where
      "moveTo H v0 f (full ?t) Archived = Some (Inr (out, v1, f1))" ..
    then have "\<exists>dest. out = Archived dest \<and> f1 = f\<lparr>path := dest\<rparr>"
      by (rule moveTo_returns)
    then obtain dest where d: "out = Archived dest" "f1 = f\<lparr>path := dest\<rparr>"
      by (elim exE conjE)
    with assms(4) have "dest = full ?t" by simp
    then have inA: "isInArchive cfg (path f1)" using d(2) archive_target_in_archive [OF cr] by simp
    have w: "shouldArchive cfg f1" using arch(3) d(2) by (simp add: shouldArchive_path)
    have e: "extension f1 = ''md''" using arch(1) d(2) by simp
    show ?thesis using e w inA by (intro processFile_stays) simp_all
  next
    case unarch
    show ?thesis
    proof (cases "buildUnarchiveTarget cfg f")
      case None
      with unarch have "processFile H cfg v f = Some (Inr (NoAction, v, f))"
        by (simp add: processFile_def Let_def)
      with assms(3) show ?thesis by simp
    next
      case (Some t)
      have pf: "processFile H cfg v f =
           (case (if dir t \<noteq> [] then ensureFolderExists H v (dir t) else Inr v) of
              Inl ev \<Rightarrow> Some (Inl ev)
            | Inr v0 \<Rightarrow> moveTo H v0 f (full t) Unarchived)"
        using unarch assms(1) Some by (rule processFile_unarchive)
      have "(case (if dir t \<noteq> [] then ensureFolderExists H v (dir t) else Inr v) of
              Inl ev \<Rightarrow> Some (Inl ev)
            | Inr v0 \<Rightarrow> moveTo H v0 f (full t) Unarchived) = Some (Inr (out, v1, f1))"
        using assms(3) by (simp only: pf)
      then have "\<exists>v0. moveTo H v0 f (full t) Unarchived = Some (Inr (out, v1, f1))"
        by (rule sum_case_returns)
      then obtain v0 where
        "moveTo H v0 f (full t) Unarchived = Some (Inr (out, v1, f1))" ..
      then have "\<exists>dest. out = Unarchived dest \<and> f1 = f\<lparr>path := dest\<rparr>"
        by (rule moveTo_returns)
      then obtain dest where d: "out = Unarchived dest" "f1 = f\<lparr>path := dest\<rparr>"
        by (elim exE conjE)
      with assms(5) have notA: "\<not> isInArchive cfg (path f1)" by simp
      have w: "\<not> shouldArchive cfg f1" using unarch(3) d(2) by (simp add: shouldArchive_path)
      have e: "extension f1 = ''md''" using unarch(1) d(2) by simp
      show ?thesis using e w notA by (intro processFile_stays) simp_all
    qed
  next
    case rest
    then have "processFile H cfg v f = Some (Inr (NoAction, v, f))"
      by (auto simp: processFile_def Let_def)
    with assms(3) show ?thesis by simp
  qed
qed

theorem second_call_is_NoAction_witness:
  "\<not> dryRun DEFAULT_SETTINGS \<and> normalizePath (archiveRoot DEFAULT_SETTINGS) \<noteq> ''/'' \<and>
   processFile listVault DEFAULT_SETTINGS [''Task'', ''Task/TASK-1234.md'']
     (mdNote ''Task/TASK-1234.md'' [(''Archived'', JBoolean True)]) =
   Some (Inr (Archived ''Archive/Task/TASK-1234.md'',
              [''Task'', ''Archive/Task/TASK-1234.md'', ''Archive'', ''Archive/Task''],
              mdNote ''Archive/Task/TASK-1234.md'' [(''Archived'', JBoolean True)])) \<and>
   processFile listVault DEFAULT_SETTINGS
     [''Task'', ''Archive/Task/TASK-1234.md'', ''Archive'', ''Archive/Task'']
     (mdNote ''Archive/Task/TASK-1234.md'' [(''Archived'', JBoolean True)]) =
   Some (Inr (NoAction, [''Task'', ''Archive/Task/TASK-1234.md'', ''Archive'', ''Archive/Task''],
              mdNote ''Archive/Task/TASK-1234.md'' [(''Archived'', JBoolean True)])) \<and>
   processFile listVault DEFAULT_SETTINGS [''Archive'', ''Archive/Task'', ''Archive/Task/TASK-1234.md'']
     (mdNote ''Archive/Task/TASK-1234.md'' []) =
   Some (Inr (Unarchived ''Task/TASK-1234.md'',
              [''Archive'', ''Archive/Task'', ''Task/TASK-1234.md'', ''Task''],
              mdNote ''Task/TASK-1234.md'' [])) \<and>
   processFile listVault DEFAULT_SETTINGS [''Archive'', ''Archive/Task'', ''Task/TASK-1234.md'', ''Task'']
     (mdNote ''Task/TASK-1234.md'' []) =
   Some (Inr (NoAction, [''Archive'', ''Archive/Task'', ''Task/TASK-1234.md'', ''Task''],
              mdNote ''Task/TASK-1234.md'' []))"
proof -
  let ?f = "mdNote ''Task/TASK-1234.md'' [(''Archived'', JBoolean True)]"
  let ?g = "mdNote ''Archive/Task/TASK-1234.md'' []"
  have h1: "\<not> dryRun DEFAULT_SETTINGS" by code_simp
  have h2: "normalizePath (archiveRoot DEFAULT_SETTINGS) \<noteq> ''/''" by code_simp
  have a3: "processFile listVault DEFAULT_SETTINGS [''Task'', ''Task/TASK-1234.md''] ?f =
      Some (Inr (Archived ''Archive/Task/TASK-1234.md'',
              [''Task'', ''Archive/Task/TASK-1234.md'', ''Archive'', ''Archive/Task''],
              mdNote ''Archive/Task/TASK-1234.md'' [(''Archived'', JBoolean True)]))"
    by code_simp
  have t: "full (buildArchiveTarget DEFAULT_SETTINGS ?f) = ''Archive/Task/TASK-1234.md''" by code_simp
  have a4: "\<forall>d. Archived ''Archive/Task/TASK-1234.md'' = Archived d
              \<longrightarrow> d = full (buildArchiveTarget DEFAULT_SETTINGS ?f)"
    using t by simp
  have a5: "\<forall>d. Archived ''Archive/Task/TASK-1234.md'' = Unarchived d \<longrightarrow> \<not> isInArchive DEFAULT_SETTINGS d"
    by simp
  have u3: "processFile listVault DEFAULT_SETTINGS [''Archive'', ''Archive/Task'', ''Archive/Task/TASK-1234.md''] ?g =
      Some (Inr (Unarchived ''Task/TASK-1234.md'',
              [''Archive'', ''Archive/Task'', ''Task/TASK-1234.md'', ''Task''],
              mdNote ''Task/TASK-1234.md'' []))"
    by code_simp
  have n: "\<not> isInArchive DEFAULT_SETTINGS ''Task/TASK-1234.md''" by code_simp
  have u4: "\<forall>d. Unarchived ''Task/TASK-1234.md'' = Archived d
              \<longrightarrow> d = full (buildArchiveTarget DEFAULT_SETTINGS ?g)"
    by simp
  have u5: "\<forall>d. Unarchived ''Task/TASK-1234.md'' = Unarchived d \<longrightarrow> \<not> isInArchive DEFAULT_SETTINGS d"
    using n by simp
  note second_call_is_NoAction [OF h1 h2 a3 a4 a5] second_call_is_NoAction [OF h1 h2 u3 u4 u5]
  with h1 h2 a3 u3 show ?thesis by (intro conjI)
qed

text \<open>The claim as stated holds for every document and configuration. A note at
  \<^verbatim>\<open>Archive/Archive/x.md\<close> without a marker is moved to \<^verbatim>\<open>Archive/x.md\<close>, its computed
  target, by the first call and to \<^verbatim>\<open>x.md\<close> by the second. And in a dry run a call
  changes nothing, so each further call reports the same would-be archive again.\<close>

theorem second_call_is_NoAction_counterexample:
  "processFile listVault DEFAULT_SETTINGS [''Archive'', ''Archive/Archive'', ''Archive/Archive/x.md'']
     (mdNote ''Archive/Archive/x.md'' []) =
   Some (Inr (Unarchived ''Archive/x.md'', [''Archive'', ''Archive/Archive'', ''Archive/x.md''],
              mdNote ''Archive/x.md'' [])) \<and>
   buildUnarchiveTarget DEFAULT_SETTINGS (mdNote ''Archive/Archive/x.md'' []) =
   Some \<lparr>dir = ''Archive'', full = ''Archive/x.md''\<rparr> \<and>
   processFile listVault DEFAULT_SETTINGS [''Archive'', ''Archive/Archive'', ''Archive/x.md'']
     (mdNote ''Archive/x.md'' []) =
   Some (Inr (Unarchived ''x.md'', [''Archive'', ''Archive/Archive'', ''x.md''], mdNote ''x.md'' [])) \<and>
   processFile listVault (DEFAULT_SETTINGS\<lparr>dryRun := True\<rparr>) [''a.md'']
     (mdNote ''a.md'' [(''Archived'', JBoolean True)]) =
   Some (Inr (WouldArchive ''Archive/a.md'', [''a.md''], mdNote ''a.md'' [(''Archived'', JBoolean True)]))"
  by code_simp

subsection \<open>C5: exclusions and other file types come first\<close>

text \<open>
  C5. A file whose extension is not \<^verbatim>\<open>md\<close>, or whose path lies under an excluded root,
  is not transitioned: \<^verbatim>\<open>processFile\<close> returns at once, whatever the classifier would
  say, calls nothing of the vault and leaves the file where it is.
\<close>

theorem exclusion_precedence:
  "extension f \<noteq> ''md'' \<or> isExcluded cfg (path f) \<Longrightarrow>
   processFile H cfg v f = Some (Inr (NoAction, v, f))"
  by (rule processFile_skips)

theorem exclusion_precedence_witness:
  "isExcluded (DEFAULT_SETTINGS\<lparr>excludedRoots := [''Templates'']\<rparr>)
     (path (mdNote ''Templates/Task.md'' [(''Archived'', JBoolean True)])) \<and>
   shouldArchive (DEFAULT_SETTINGS\<lparr>excludedRoots := [''Templates'']\<rparr>)
     (mdNote ''Templates/Task.md'' [(''Archived'', JBoolean True)]) \<and>
   processFile listVault (DEFAULT_SETTINGS\<lparr>excludedRoots := [''Templates'']\<rparr>)
     [''Templates'', ''Templates/Task.md'']
     (mdNote ''Templates/Task.md'' [(''Archived'', JBoolean True)]) =
   Some (Inr (NoAction, [''Templates'', ''Templates/Task.md''],
              mdNote ''Templates/Task.md'' [(''Archived'', JBoolean True)]))"
proof -
  let ?C = "DEFAULT_SETTINGS\<lparr>excludedRoots := [''Templates'']\<rparr>"
  let ?f = "mdNote ''Templates/Task.md'' [(''Archived'', JBoolean True)]"
  have h: "isExcluded ?C (path ?f)" by code_simp
  have w: "shouldArchive ?C ?f" by code_simp
  from h have "extension ?f \<noteq> ''md'' \<or> isExcluded ?C (path ?f)" by (rule disjI2)
  from exclusion_precedence [OF this, of listVault "[''Templates'', ''Templates/Task.md'']"] h w
  show ?thesis by blast
qed

subsection \<open>C6: truthy values\<close>

text \<open>
  C6, as amended. \<^verbatim>\<open>isTruthy\<close> is true exactly for the boolean true, the number 1, and
  a string that, trimmed and lower-cased, is \<^verbatim>\<open>true\<close>, \<^verbatim>\<open>1\<close> or one of the extra truthy
  strings, trimmed and lower-cased too. So it holds of true, 1 and \<^verbatim>\<open>"TRUE"\<close>, not of 2,
  and of \<^verbatim>\<open>"yes"\<close> and \<^verbatim>\<open>"no"\<close> exactly when an extra truthy string normalises to them.
\<close>

theorem isTruthy_exactly:
  "(isTruthy cfg v \<longleftrightarrow>
      v = JBoolean True \<or> v = JNumber (Finite 1) \<or>
      (\<exists>s. v = JString s \<and>
           (norm_str s = ''true'' \<or> norm_str s = ''1'' \<or>
            norm_str s \<in> norm_str ` set (extraTruthyValues cfg)))) \<and>
   isTruthy cfg (JBoolean True) \<and>
   isTruthy cfg (JNumber (Finite 1)) \<and>
   \<not> isTruthy cfg (JNumber (Finite 2)) \<and>
   isTruthy cfg (JString ''TRUE'') \<and>
   (isTruthy cfg (JString ''yes'') \<longleftrightarrow> ''yes'' \<in> norm_str ` set (extraTruthyValues cfg)) \<and>
   (isTruthy cfg (JString ''no'') \<longleftrightarrow> ''no'' \<in> norm_str ` set (extraTruthyValues cfg))"
proof (intro conjI)
  show "isTruthy cfg v \<longleftrightarrow>
      v = JBoolean True \<or> v = JNumber (Finite 1) \<or>
      (\<exists>s. v = JString s \<and>
           (norm_str s = ''true'' \<or> norm_str s = ''1'' \<or>
            norm_str s \<in> norm_str ` set (extraTruthyValues cfg)))"
    by (cases v) (auto simp: Let_def)
qed (simp_all add: norm_str_literals Let_def)

theorem isTruthy_exactly_witness:
  "isTruthy DEFAULT_SETTINGS (JString ''Yes'') \<and>
   \<not> isTruthy (DEFAULT_SETTINGS\<lparr>extraTruthyValues := []\<rparr>) (JString ''yes'') \<and>
   \<not> isTruthy DEFAULT_SETTINGS (JString ''no'') \<and>
   \<not> isTruthy DEFAULT_SETTINGS JNull"
proof -
  have a: "norm_str ''Yes'' \<in> norm_str ` set (extraTruthyValues DEFAULT_SETTINGS)" by code_simp
  have b: "''no'' \<notin> norm_str ` set (extraTruthyValues DEFAULT_SETTINGS)" by code_simp
  have c: "''yes'' \<notin> norm_str ` set (extraTruthyValues (DEFAULT_SETTINGS\<lparr>extraTruthyValues := []\<rparr>))"
    by code_simp
  from isTruthy_exactly [of DEFAULT_SETTINGS "JString ''Yes''"] a
  have 1: "isTruthy DEFAULT_SETTINGS (JString ''Yes'')" by blast
  from isTruthy_exactly [of "DEFAULT_SETTINGS\<lparr>extraTruthyValues := []\<rparr>" v] c
  have 2: "\<not> isTruthy (DEFAULT_SETTINGS\<lparr>extraTruthyValues := []\<rparr>) (JString ''yes'')" by blast
  from isTruthy_exactly [of DEFAULT_SETTINGS v] b
  have 3: "\<not> isTruthy DEFAULT_SETTINGS (JString ''no'')" by blast
  from isTruthy_exactly [of DEFAULT_SETTINGS JNull]
  have 4: "\<not> isTruthy DEFAULT_SETTINGS JNull" by blast
  from 1 2 3 4 show ?thesis by blast
qed

text \<open>The claim as stated compares the case-folded string. The string \<^verbatim>\<open>" true "\<close> is
  truthy, and its lower-cased form is none of the strings the claim lists.\<close>

theorem isTruthy_exactly_counterexample:
  "isTruthy DEFAULT_SETTINGS (JString '' true '') \<and>
   toLowerCase '' true '' \<noteq> ''true'' \<and>
   toLowerCase '' true '' \<noteq> ''1'' \<and>
   toLowerCase '' true '' \<notin> toLowerCase ` set (extraTruthyValues DEFAULT_SETTINGS)"
  by code_simp

subsection \<open>C7: the archive root is no unarchive source\<close>

text \<open>
  C7. For a file, whose path is never the vault root \<^verbatim>\<open>"/"\<close>, and for every archive
  root: \<^verbatim>\<open>buildUnarchiveTarget\<close> returns null when the path is not under the archive
  root and when it equals the root, as written or after normalisation; in particular the
  target of the root's own path is null. A file at the root is left alone by
  \<^verbatim>\<open>processFile\<close>.
\<close>

theorem unarchive_root_is_null:
  assumes "normalizePath (path f) \<noteq> ''/''"
  shows "(\<not> isInArchive cfg (path f) \<or> normalizePath (path f) = normalizePath (archiveRoot cfg)
            \<longrightarrow> buildUnarchiveTarget cfg f = None) \<and>
         (path f = archiveRoot cfg \<longrightarrow> buildUnarchiveTarget cfg f = None) \<and>
         (normalizePath (path f) = normalizePath (archiveRoot cfg)
            \<longrightarrow> processFile H cfg v f = Some (Inr (NoAction, v, f)))"
proof -
  have r: "normalizePath (path f) = rootOf (archiveRoot cfg)"
    if "normalizePath (path f) = normalizePath (archiveRoot cfg)"
  proof -
    from that assms have "normalizePath (archiveRoot cfg) \<noteq> ''/''" by simp
    then have "rootOf (archiveRoot cfg) = normalizePath (archiveRoot cfg)" by (rule rootOf_canonical(1))
    with that show ?thesis by simp
  qed
  show ?thesis
  proof (intro conjI impI)
    assume "\<not> isInArchive cfg (path f) \<or> normalizePath (path f) = normalizePath (archiveRoot cfg)"
    then have "\<not> isInArchive cfg (path f) \<or> normalizePath (path f) = rootOf (archiveRoot cfg)"
      using r by blast
    then show "buildUnarchiveTarget cfg f = None" by (rule buildUnarchiveTarget_None)
  next
    assume "path f = archiveRoot cfg"
    then have "normalizePath (path f) = rootOf (archiveRoot cfg)" using r by simp
    then show "buildUnarchiveTarget cfg f = None" by (simp add: buildUnarchiveTarget_None)
  next
    assume "normalizePath (path f) = normalizePath (archiveRoot cfg)"
    then have "normalizePath (path f) = rootOf (archiveRoot cfg)" by (rule r)
    then show "processFile H cfg v f = Some (Inr (NoAction, v, f))" by (rule processFile_at_root)
  qed
qed

theorem unarchive_root_is_null_witness:
  "normalizePath (path (mdNote ''Archive'' [])) \<noteq> ''/'' \<and>
   path (mdNote ''Archive'' []) = archiveRoot DEFAULT_SETTINGS \<and>
   normalizePath (path (mdNote ''Task/a.md'' [])) \<noteq> ''/'' \<and>
   \<not> isInArchive DEFAULT_SETTINGS (path (mdNote ''Task/a.md'' [])) \<and>
   buildUnarchiveTarget DEFAULT_SETTINGS (mdNote ''Archive'' []) = None \<and>
   buildUnarchiveTarget DEFAULT_SETTINGS (mdNote ''Task/a.md'' []) = None \<and>
   processFile listVault DEFAULT_SETTINGS [''Archive''] (mdNote ''Archive'' []) =
     Some (Inr (NoAction, [''Archive''], mdNote ''Archive'' []))"
proof -
  have h1: "normalizePath (path (mdNote ''Archive'' [])) \<noteq> ''/''" by code_simp
  have h2: "path (mdNote ''Archive'' []) = archiveRoot DEFAULT_SETTINGS" by code_simp
  have h3: "normalizePath (path (mdNote ''Task/a.md'' [])) \<noteq> ''/''" by code_simp
  have h4: "\<not> isInArchive DEFAULT_SETTINGS (path (mdNote ''Task/a.md'' []))" by code_simp
  from unarchive_root_is_null [OF h1, of DEFAULT_SETTINGS listVault "[''Archive'']"]
    unarchive_root_is_null [OF h3, of DEFAULT_SETTINGS listVault "[''Archive'']"]
    h1 h2 h3 h4
  show ?thesis by (metis (no_types))
qed

subsection \<open>C8: a dry run changes nothing\<close>

text \<open>
  C8. With the dry-run flag set, \<^verbatim>\<open>processFile\<close> always returns with the vault and the
  file as they were. Where an archive transition is due it reports the archive target
  it computed, where an unarchive transition is due the unarchive target; no folder is
  made and nothing is renamed, whatever the vault.
\<close>

theorem dry_run_frame:
  assumes "dryRun cfg"
  shows "(\<exists>out. processFile H cfg v f = Some (Inr (out, v, f))) \<and>
         (extension f = ''md'' \<and> \<not> isExcluded cfg (path f) \<and>
          shouldArchive cfg f \<and> \<not> isInArchive cfg (path f)
            \<longrightarrow> processFile H cfg v f =
                  Some (Inr (WouldArchive (full (buildArchiveTarget cfg f)), v, f))) \<and>
         (\<forall>t. extension f = ''md'' \<and> \<not> isExcluded cfg (path f) \<and>
              \<not> shouldArchive cfg f \<and> isInArchive cfg (path f) \<and> unarchiveOnMissingAll cfg \<and>
              buildUnarchiveTarget cfg f = Some t
            \<longrightarrow> processFile H cfg v f = Some (Inr (WouldUnarchive (full t), v, f)))"
  using assms by (auto simp: processFile_def Let_def split: option.splits)

theorem dry_run_frame_witness:
  "dryRun (DEFAULT_SETTINGS\<lparr>dryRun := True\<rparr>) \<and>
   processFile listVault (DEFAULT_SETTINGS\<lparr>dryRun := True\<rparr>) [''Task'', ''Task/TASK-1234.md'']
     (mdNote ''Task/TASK-1234.md'' [(''Archived'', JBoolean True)]) =
   Some (Inr (WouldArchive ''Archive/Task/TASK-1234.md'', [''Task'', ''Task/TASK-1234.md''],
              mdNote ''Task/TASK-1234.md'' [(''Archived'', JBoolean True)])) \<and>
   processFile listVault (DEFAULT_SETTINGS\<lparr>dryRun := True\<rparr>) [''Archive'', ''Archive/a.md'']
     (mdNote ''Archive/a.md'' []) =
   Some (Inr (WouldUnarchive ''a.md'', [''Archive'', ''Archive/a.md''], mdNote ''Archive/a.md'' []))"
proof -
  let ?C = "DEFAULT_SETTINGS\<lparr>dryRun := True\<rparr>"
  let ?f = "mdNote ''Task/TASK-1234.md'' [(''Archived'', JBoolean True)]"
  let ?g = "mdNote ''Archive/a.md'' []"
  have d: "dryRun ?C" by code_simp
  have a: "extension ?f = ''md'' \<and> \<not> isExcluded ?C (path ?f) \<and>
           shouldArchive ?C ?f \<and> \<not> isInArchive ?C (path ?f)" by code_simp
  have t: "full (buildArchiveTarget ?C ?f) = ''Archive/Task/TASK-1234.md''" by code_simp
  have u: "extension ?g = ''md'' \<and> \<not> isExcluded ?C (path ?g) \<and>
           \<not> shouldArchive ?C ?g \<and> isInArchive ?C (path ?g) \<and> unarchiveOnMissingAll ?C \<and>
           buildUnarchiveTarget ?C ?g = Some \<lparr>dir = [], full = ''a.md''\<rparr>" by code_simp
  from dry_run_frame [OF d, of listVault "[''Task'', ''Task/TASK-1234.md'']" ?f] a t
  have 1: "processFile listVault ?C [''Task'', ''Task/TASK-1234.md''] ?f =
           Some (Inr (WouldArchive ''Archive/Task/TASK-1234.md'', [''Task'', ''Task/TASK-1234.md''], ?f))"
    by simp
  from dry_run_frame [OF d, of listVault "[''Archive'', ''Archive/a.md'']" ?g] u
  have 2: "processFile listVault ?C [''Archive'', ''Archive/a.md''] ?g =
           Some (Inr (WouldUnarchive ''a.md'', [''Archive'', ''Archive/a.md''], ?g))"
    by (metis Target.select_convs(2))
  from d 1 2 show ?thesis by blast
qed

subsection \<open>C9: tags\<close>

text \<open>
  C9. The tags \<^verbatim>\<open>"#Archived"\<close>, \<^verbatim>\<open>"archived"\<close> and \<^verbatim>\<open>" Archived "\<close> all normalise to
  \<^verbatim>\<open>archived\<close>, and a file that carries any one of them is to be archived whenever
  \<^verbatim>\<open>archived\<close> is among the configured tags.
\<close>

theorem tag_normalization:
  assumes "t \<in> {''#Archived'', ''archived'', '' Archived ''}"
    and "''archived'' \<in> set (tags cfg)"
    and "carriesTag f t"
  shows "normTag t = ''archived'' \<and> shouldArchive cfg f"
proof -
  from assms(1) have n: "normTag t = ''archived''"
    by (elim insertE emptyE) (simp_all only: normTag_literals)
  from assms(1) have s: "map normTag (splitFields (\<lambda>c. c = CHR '','' \<or> isSpace c) [] t) = [''archived'']"
    by (elim insertE emptyE) (simp_all only: splitFields_literals)
  have "''archived'' \<in> set (tagSet (cache f))" using assms(3) n s by (rule carriesTag_tagSet)
  moreover have "''archived'' \<in> set (map normTag (tags cfg))"
    using assms(2) normTag_literals(2) by force
  ultimately show ?thesis using n by (simp add: shouldArchive_tag)
qed

theorem tag_normalization_witness:
  "''archived'' \<in> set (tags DEFAULT_SETTINGS) \<and>
   carriesTag \<lparr>path = ''a.md'', extension = ''md'',
                cache = Some \<lparr>frontmatter = None, inlineTags = Some [''#Archived'']\<rparr>\<rparr> ''#Archived'' \<and>
   carriesTag (mdNote ''a.md'' [(''tags'', JArray [JString '' Archived ''])]) '' Archived '' \<and>
   carriesTag (mdNote ''a.md'' [(''tags'', JString ''archived'')]) ''archived'' \<and>
   shouldArchive DEFAULT_SETTINGS
     \<lparr>path = ''a.md'', extension = ''md'',
      cache = Some \<lparr>frontmatter = None, inlineTags = Some [''#Archived'']\<rparr>\<rparr> \<and>
   shouldArchive DEFAULT_SETTINGS (mdNote ''a.md'' [(''tags'', JArray [JString '' Archived ''])]) \<and>
   shouldArchive DEFAULT_SETTINGS (mdNote ''a.md'' [(''tags'', JString ''archived'')])"
proof -
  let ?f1 = "\<lparr>path = ''a.md'', extension = ''md'',
              cache = Some \<lparr>frontmatter = None, inlineTags = Some [''#Archived'']\<rparr>\<rparr>"
  let ?f2 = "mdNote ''a.md'' [(''tags'', JArray [JString '' Archived ''])]"
  let ?f3 = "mdNote ''a.md'' [(''tags'', JString ''archived'')]"
  have c: "''archived'' \<in> set (tags DEFAULT_SETTINGS)" by code_simp
  have k1: "carriesTag ?f1 ''#Archived''" by code_simp
  have k2: "carriesTag ?f2 '' Archived ''" by code_simp
  have k3: "carriesTag ?f3 ''archived''" by code_simp
  have m1: "''#Archived'' \<in> {''#Archived'', ''archived'', '' Archived ''}" by simp
  have m2: "'' Archived '' \<in> {''#Archived'', ''archived'', '' Archived ''}" by simp
  have m3: "''archived'' \<in> {''#Archived'', ''archived'', '' Archived ''}" by simp
  have s1: "shouldArchive DEFAULT_SETTINGS ?f1"
    using tag_normalization [OF m1 c k1] by (rule conjunct2)
  have s2: "shouldArchive DEFAULT_SETTINGS ?f2"
    using tag_normalization [OF m2 c k2] by (rule conjunct2)
  have s3: "shouldArchive DEFAULT_SETTINGS ?f3"
    using tag_normalization [OF m3 c k3] by (rule conjunct2)
  from c k1 k2 k3 s1 s2 s3 show ?thesis by (intro conjI)
qed

subsection \<open>C10: containment goes by path segments\<close>

text \<open>
  C10. A path is inside the archive root, or under an excluded root, exactly when its
  normal form is the root (normalised, trailing slashes dropped) or is the root, a slash
  and a rest; a longer first segment does not count. \<^verbatim>\<open>Templates2/note.md\<close> is excluded
  only by roots that name \<^verbatim>\<open>Templates2\<close> or the note itself, so not by the excluded root
  \<^verbatim>\<open>Templates\<close>, and \<^verbatim>\<open>Archives/x.md\<close> is not inside the archive root \<^verbatim>\<open>Archive\<close>.
\<close>

theorem containment_by_segments:
  "(isInArchive cfg p \<longleftrightarrow>
      normalizePath p = rootOf (archiveRoot cfg) \<or>
      (\<exists>rest. normalizePath p = rootOf (archiveRoot cfg) @ ''/'' @ rest)) \<and>
   (isExcluded cfg p \<longleftrightarrow>
      (\<exists>r \<in> set (excludedRoots cfg).
          normalizePath p = rootOf r \<or> (\<exists>rest. normalizePath p = rootOf r @ ''/'' @ rest))) \<and>
   (isExcluded cfg ''Templates2/note.md'' \<longleftrightarrow>
      (\<exists>r \<in> set (excludedRoots cfg). rootOf r = ''Templates2'' \<or> rootOf r = ''Templates2/note.md'')) \<and>
   (isInArchive cfg ''Archives/x.md'' \<longleftrightarrow>
      rootOf (archiveRoot cfg) = ''Archives'' \<or> rootOf (archiveRoot cfg) = ''Archives/x.md'') \<and>
   \<not> isExcluded (cfg\<lparr>excludedRoots := [''Templates'']\<rparr>) ''Templates2/note.md'' \<and>
   \<not> isInArchive (cfg\<lparr>archiveRoot := ''Archive''\<rparr>) ''Archives/x.md''"
proof (intro conjI)
  show "isInArchive cfg p \<longleftrightarrow>
      normalizePath p = rootOf (archiveRoot cfg) \<or>
      (\<exists>rest. normalizePath p = rootOf (archiveRoot cfg) @ ''/'' @ rest)"
    by (simp only: isInArchive_def Let_def startsWith_slash_iff)
  show "isExcluded cfg p \<longleftrightarrow>
      (\<exists>r \<in> set (excludedRoots cfg).
          normalizePath p = rootOf r \<or> (\<exists>rest. normalizePath p = rootOf r @ ''/'' @ rest))"
    by (cases "excludedRoots cfg = []")
       (simp_all only: isExcluded_def Let_def startsWith_slash_iff list_ex_iff if_True if_False
          set_empty2 list.set ball_empty bex_empty simp_thms)
  show "isExcluded cfg ''Templates2/note.md'' \<longleftrightarrow>
      (\<exists>r \<in> set (excludedRoots cfg). rootOf r = ''Templates2'' \<or> rootOf r = ''Templates2/note.md'')"
    by (rule isExcluded_Templates2)
  show "isInArchive cfg ''Archives/x.md'' \<longleftrightarrow>
      rootOf (archiveRoot cfg) = ''Archives'' \<or> rootOf (archiveRoot cfg) = ''Archives/x.md''"
    by (rule isInArchive_Archives)
  show "\<not> isExcluded (cfg\<lparr>excludedRoots := [''Templates'']\<rparr>) ''Templates2/note.md''"
    by (simp add: isExcluded_Templates2 rootOf_Templates)
  show "\<not> isInArchive (cfg\<lparr>archiveRoot := ''Archive''\<rparr>) ''Archives/x.md''"
    by (simp add: isInArchive_Archives rootOf_Archive)
qed

theorem containment_by_segments_witness:
  "isExcluded (DEFAULT_SETTINGS\<lparr>excludedRoots := [''Templates'']\<rparr>) ''Templates/note.md'' \<and>
   \<not> isExcluded (DEFAULT_SETTINGS\<lparr>excludedRoots := [''Templates'']\<rparr>) ''Templates2/note.md'' \<and>
   isInArchive DEFAULT_SETTINGS ''Archive/x.md'' \<and>
   \<not> isInArchive (DEFAULT_SETTINGS\<lparr>archiveRoot := ''Archive''\<rparr>) ''Archives/x.md''"
proof -
  let ?C = "DEFAULT_SETTINGS\<lparr>excludedRoots := [''Templates'']\<rparr>"
  have n1: "normalizePath ''Templates/note.md'' = rootOf ''Templates'' @ ''/'' @ ''note.md''"
    by code_simp
  have n2: "normalizePath ''Archive/x.md'' = rootOf (archiveRoot DEFAULT_SETTINGS) @ ''/'' @ ''x.md''"
    by code_simp
  have "isExcluded ?C ''Templates/note.md''"
    using containment_by_segments [of ?C "''Templates/note.md''"] n1 by auto
  moreover have "isInArchive DEFAULT_SETTINGS ''Archive/x.md''"
    using containment_by_segments [of DEFAULT_SETTINGS "''Archive/x.md''"] n2 by blast
  moreover have "\<not> isExcluded ?C ''Templates2/note.md''"
    using containment_by_segments [of DEFAULT_SETTINGS p] by blast
  moreover have "\<not> isInArchive (DEFAULT_SETTINGS\<lparr>archiveRoot := ''Archive''\<rparr>) ''Archives/x.md''"
    using containment_by_segments [of DEFAULT_SETTINGS p] by blast
  ultimately show ?thesis by blast
qed

end
